theory Spec2Isabelle
  imports Main "HOL-Library.Sublist" "HOL-Library.Multiset"
begin

section \<open>Python primitives used by \<open>scripts/update_contributions.py\<close>\<close>

text \<open>
  A Python \<open>str\<close> is modelled as a \<open>string\<close>, a list of characters standing for code
  points below 256; text with other code points is outside the model. Apart from \<open>int\<close>
  every function below treats characters as opaque symbols, comparing them only with
  ASCII ones.
\<close>

abbreviation NL :: char where
  "NL \<equiv> CHR 0x0A"

abbreviation CR :: char where
  "CR \<equiv> CHR 0x0D"

text \<open>\<open>s.find(sub)\<close>: the lowest index where \<open>sub\<close> occurs in \<open>s\<close>, or \<open>-1\<close>.\<close>

fun str_find :: "string \<Rightarrow> string \<Rightarrow> int" where
  "str_find [] sub = (if sub = [] then 0 else - 1)"
| "str_find (c # cs) sub =
     (if prefix sub (c # cs) then 0
      else (let r = str_find cs sub in if r = - 1 then - 1 else r + 1))"

text \<open>
  \<open>s.rfind(sub, lo, hi)\<close> for \<open>0 \<le> lo\<close> and \<open>0 \<le> hi\<close>: the highest index \<open>i \<ge> lo\<close> with
  \<open>s[i : i + len(sub)] = sub\<close> inside the slice \<open>s[lo:hi]\<close>, or \<open>-1\<close>. The last occurrence
  in the slice is the first occurrence of the reversed pattern in the reversed slice.
\<close>

definition str_rfind :: "string \<Rightarrow> string \<Rightarrow> nat \<Rightarrow> nat \<Rightarrow> int" where
  "str_rfind s sub lo hi =
     (if length s < lo then - 1
      else (let t = drop lo (take hi s); r = str_find (rev t) (rev sub)
            in if r = - 1 then - 1
               else int lo + int (length t) - r - int (length sub)))"

text \<open>
  \<open>s.replace(old, new)\<close>: occurrences of \<open>old\<close> are replaced from left to right without
  overlap; an empty \<open>old\<close> matches before every character and at the end.
\<close>

function str_replace :: "string \<Rightarrow> string \<Rightarrow> string \<Rightarrow> string" where
  "str_replace [] old new = (if old = [] then new else [])"
| "str_replace (c # cs) old new =
     (if old = [] then new @ c # str_replace cs old new
      else if prefix old (c # cs)
           then new @ str_replace (drop (length old) (c # cs)) old new
           else c # str_replace cs old new)"
  by pat_completeness auto
termination
  by (relation "measure (\<lambda>(s, old, new). length s)") (auto simp: neq_Nil_conv)

text \<open>\<open>s.split(sep)\<close> for a one-character separator; the result is never empty.\<close>

fun split_on :: "char \<Rightarrow> string \<Rightarrow> string list" where
  "split_on sep [] = [[]]"
| "split_on sep (c # cs) =
     (let ps = split_on sep cs
      in if c = sep then [] # ps else (c # hd ps) # tl ps)"

text \<open>\<open>sep.join(xs)\<close>.\<close>

fun str_join :: "string \<Rightarrow> string list \<Rightarrow> string" where
  "str_join sep [] = []"
| "str_join sep [x] = x"
| "str_join sep (x # y # ys) = x @ sep @ str_join sep (y # ys)"

text \<open>\<open>str(n)\<close> on integers, as the f-strings of the script use it.\<close>

definition digit_char :: "nat \<Rightarrow> char" where
  "digit_char d = ''0123456789'' ! d"

function str_nat :: "nat \<Rightarrow> string" where
  "str_nat n = (if n < 10 then [digit_char n] else str_nat (n div 10) @ [digit_char (n mod 10)])"
  by pat_completeness auto
termination
  by (relation "measure id") auto

declare str_nat.simps [simp del]

definition str_int :: "int \<Rightarrow> string" where
  "str_int i = (if i < 0 then CHR ''-'' # str_nat (nat (- i)) else str_nat (nat i))"

text \<open>
  \<open>int(text)\<close> in base 10, \<open>None\<close> standing for \<open>ValueError\<close>. White space around the
  numeral is dropped (of the code points below 256 these are 9 to 13, 32, 0x85 and 0xA0);
  then comes an optional sign and the digits, where single underscores may stand between
  digits. CPython 3.11 with its default settings refuses a numeral of more than 4300
  digits, counted without the underscores.
\<close>

definition is_space :: "char \<Rightarrow> bool" where
  "is_space c =
     (c \<in> set [CHR 0x09, CHR 0x0A, CHR 0x0B, CHR 0x0C, CHR 0x0D, CHR 0x20, CHR 0x85, CHR 0xA0])"

definition strip :: "string \<Rightarrow> string" where
  "strip s = rev (dropWhile is_space (rev (dropWhile is_space s)))"

definition is_digit :: "char \<Rightarrow> bool" where
  "is_digit c = (c \<in> set ''0123456789'')"

definition digit_val :: "char \<Rightarrow> int" where
  "digit_val c = int (of_char c) - 48"

fun grouped :: "string \<Rightarrow> bool" where
  "grouped [] = False"
| "grouped [c] = is_digit c"
| "grouped (c # d # cs) =
     (is_digit c \<and> (if d = CHR ''_'' then grouped cs else grouped (d # cs)))"

definition digits_val :: "string \<Rightarrow> int option" where
  "digits_val ds =
     (let digits = filter (\<lambda>c. c \<noteq> CHR ''_'') ds
      in if grouped ds \<and> length digits \<le> 4300
         then Some (foldl (\<lambda>a c. 10 * a + digit_val c) 0 digits) else None)"

definition py_int :: "string \<Rightarrow> int option" where
  "py_int s =
     (case strip s of
        [] \<Rightarrow> None
      | c # cs \<Rightarrow>
          if c = CHR ''-'' then map_option uminus (digits_val cs)
          else if c = CHR ''+'' then digits_val cs
          else digits_val (c # cs))"

text \<open>
  \<open>sorted(xs, key=k, reverse=True)\<close> for an integer key: descending by key, and, the sort
  being stable also under \<open>reverse=True\<close>, elements with equal keys keep their order.
  \<open>sort_key\<close> is a stable insertion sort, applied here to the negated key.
\<close>

definition sorted_desc :: "('a \<Rightarrow> int) \<Rightarrow> 'a list \<Rightarrow> 'a list" where
  "sorted_desc k xs = sort_key (\<lambda>x. - k x) xs"

text \<open>
  Python dictionaries keep insertion order: they are association lists with distinct keys.
  \<open>dict_set\<close> is \<open>d[k] = v\<close>; \<open>dict_get_default\<close> reads a \<open>defaultdict\<close>.
\<close>

definition dict_set :: "('k \<times> 'v) list \<Rightarrow> 'k \<Rightarrow> 'v \<Rightarrow> ('k \<times> 'v) list" where
  "dict_set d k v =
     (if k \<in> fst ` set d then map (\<lambda>(k', v'). if k' = k then (k', v) else (k', v')) d
      else d @ [(k, v)])"

definition dict_get_default :: "('k \<times> 'v) list \<Rightarrow> 'k \<Rightarrow> 'v \<Rightarrow> 'v" where
  "dict_get_default d k dflt = (case map_of d k of None \<Rightarrow> dflt | Some v \<Rightarrow> v)"

section \<open>Configuration constants\<close>

definition EXCLUDED_REPOS :: "string set" where
  "EXCLUDED_REPOS = {''dream11/odin'', ''dream11/homebrew-tools''}"

definition START_MARKER :: string where
  "START_MARKER = ''<!-- BEGIN CONTRIBUTIONS -->''"

definition END_MARKER :: string where
  "END_MARKER = ''<!-- END CONTRIBUTIONS -->''"

definition CHEVRON_SVG :: string where
  \<open>CHEVRON_SVG =
     ''<svg class="repo-chevron" viewBox="0 0 24 24" fill="none" '' @
     ''stroke="currentColor" stroke-width="2">'' @
     ''<polyline points="9 18 15 12 9 6"/></svg>''\<close>

record category =
  name :: string
  link_text :: "string option"
  link_url :: "string option"

text \<open>An entry of \<open>CATEGORIES\<close>: the display fields and the \<open>match\<close> predicate.\<close>

type_synonym rule = "category \<times> (string \<Rightarrow> bool)"

definition CATEGORIES :: "rule list" where
  "CATEGORIES =
     [(\<lparr>name = ''Odin'',
        link_text = Some ''dream-horizon-org.github.io/odin'',
        link_url = Some ''https://dream-horizon-org.github.io/odin/''\<rparr>,
       \<lambda>repo. sublist ''odin'' repo),
      (\<lparr>name = ''Vert.x'',
        link_text = Some ''vertx.io'',
        link_url = Some ''https://vertx.io/''\<rparr>,
       \<lambda>repo. sublist ''vertx'' repo)]"

definition OTHER_CATEGORY :: category where
  "OTHER_CATEGORY = \<lparr>name = ''Other'', link_text = None, link_url = None\<rparr>"

section \<open>Effects\<close>

text \<open>
  A call returns, ends the process with \<open>sys.exit(code)\<close>, or raises.
\<close>

datatype exn = ValueError | IndexError | OverflowError

datatype 'a outcome = Returned 'a | Exited int | Raised exn

text \<open>
  The world a call runs in: the state of the remote server, the pages requested so far
  (every other part of the request URL is constant), the durations passed to
  \<open>time.sleep\<close>, the lines printed, the text of \<open>index.html\<close> and how often it was written.
\<close>

record 's world =
  server_state :: 's
  requests :: "nat list"
  slept :: "int list"
  stdout :: "string list"
  index_html :: string
  writes :: nat

definition print :: "string \<Rightarrow> 's world \<Rightarrow> 's world" where
  "print line w = w\<lparr>stdout := stdout w @ [line]\<rparr>"

section \<open>API client\<close>

text \<open>The fields of a search result item and of a decoded response that the script reads.\<close>

record item =
  html_url :: string
  item_title :: string

record api_data =
  items :: "item list option"
  total_count :: "int option"

text \<open>
  What \<open>urlopen\<close> gives: a decoded body, or an \<open>HTTPError\<close> with its status code, the value of
  its \<open>Retry-After\<close> header if present, and its body text. The server answers a request for
  a page from its state.
\<close>

datatype http_response = Ok api_data | HTTPError int "string option" string

type_synonym 's server = "nat \<Rightarrow> 's \<Rightarrow> http_response \<times> 's"

text \<open>
  \<open>github_request\<close>: the loop \<open>for attempt in range(3)\<close>, by the attempts left.
  \<open>time.sleep\<close> raises \<open>ValueError\<close> for a negative duration and, in CPython on a 64-bit
  platform, \<open>OverflowError\<close> for one of 9223372037 seconds or more, whose nanoseconds do
  not fit the clock's 64-bit count.
\<close>

fun attempt_loop :: "nat \<Rightarrow> 's server \<Rightarrow> nat \<Rightarrow> 's world \<Rightarrow> api_data outcome \<times> 's world" where
  "attempt_loop 0 srv page w = (Exited 1, print ''Error: Exceeded retry attempts'' w)"
| "attempt_loop (Suc n) srv page w =
     (let (resp, st) = srv page (server_state w);
          w1 = w\<lparr>server_state := st, requests := requests w @ [page]\<rparr>
      in case resp of
           Ok data \<Rightarrow> (Returned data, w1)
         | HTTPError code retry_after_header body \<Rightarrow>
             if code = 403 \<or> code = 429 then
               (case py_int (case retry_after_header of None \<Rightarrow> ''60'' | Some v \<Rightarrow> v) of
                  None \<Rightarrow> (Raised ValueError, w1)
                | Some retry_after \<Rightarrow>
                    (let w2 = print (''Rate limited. Waiting '' @ str_int retry_after @ ''s...'') w1
                     in if retry_after < 0 then (Raised ValueError, w2)
                        else if 9223372037 \<le> retry_after then (Raised OverflowError, w2)
                        else attempt_loop n srv page (w2\<lparr>slept := slept w2 @ [retry_after]\<rparr>)))
             else (Exited 1,
                   print body (print (''Error: GitHub API returned '' @ str_int code) w1)))"

definition github_request :: "'s server \<Rightarrow> nat \<Rightarrow> 's world \<Rightarrow> api_data outcome \<times> 's world" where
  "github_request srv page w = attempt_loop 3 srv page w"

record pr =
  repo :: string
  pr_number :: int
  title :: string
  url :: string

text \<open>The body of \<open>for item in items\<close>: the record to append, if the repository is kept.\<close>

definition item_pr :: "item \<Rightarrow> exn + pr option" where
  "item_pr it =
     (let parts = split_on CHR ''/'' (html_url it)
      in if length parts < 7 then Inl IndexError
         else (case py_int (parts ! 6) of
                 None \<Rightarrow> Inl ValueError
               | Some number \<Rightarrow>
                   (let full_repo = parts ! 3 @ ''/'' @ parts ! 4
                    in if full_repo \<in> EXCLUDED_REPOS then Inr None
                       else Inr (Some \<lparr>repo = full_repo, pr_number = number,
                                        title = item_title it, url = html_url it\<rparr>))))"

fun append_items :: "item list \<Rightarrow> pr list \<Rightarrow> exn + pr list" where
  "append_items [] all_prs = Inr all_prs"
| "append_items (it # its) all_prs =
     (case item_pr it of
        Inl e \<Rightarrow> Inl e
      | Inr None \<Rightarrow> append_items its all_prs
      | Inr (Some p) \<Rightarrow> append_items its (all_prs @ [p]))"

text \<open>The \<open>while True\<close> loop of \<open>fetch_merged_prs\<close>, with \<open>per_page = 100\<close>.\<close>

function fetch_loop :: "'s server \<Rightarrow> nat \<Rightarrow> pr list \<Rightarrow> 's world \<Rightarrow> pr list outcome \<times> 's world" where
  "fetch_loop srv page all_prs w =
     (case github_request srv page w of
        (Exited c, w') \<Rightarrow> (Exited c, w')
      | (Raised e, w') \<Rightarrow> (Raised e, w')
      | (Returned data, w') \<Rightarrow>
          (let its = (case items data of None \<Rightarrow> [] | Some xs \<Rightarrow> xs)
           in if its = [] then (Returned all_prs, w')
              else (case append_items its all_prs of
                      Inl e \<Rightarrow> (Raised e, w')
                    | Inr all_prs' \<Rightarrow>
                        (let total = (case total_count data of None \<Rightarrow> 0 | Some t \<Rightarrow> t)
                         in if int (page * 100) \<ge> total \<or> page * 100 \<ge> 1000
                            then (Returned all_prs', w')
                            else fetch_loop srv (page + 1) all_prs' w'))))"
  by pat_completeness auto
termination
  by (relation "measure (\<lambda>(srv, page, all_prs, w). 10 - page)") auto

declare fetch_loop.simps [simp del]

definition fetch_merged_prs :: "'s server \<Rightarrow> 's world \<Rightarrow> pr list outcome \<times> 's world" where
  "fetch_merged_prs srv w =
     (case fetch_loop srv 1 [] w of
        (Returned all_prs, w') \<Rightarrow>
          (Returned all_prs,
           print (''Fetched '' @ str_nat (length all_prs) @ '' merged PRs across '' @
                  str_nat (card (set (map repo all_prs))) @ '' repos'') w')
      | (r, w') \<Rightarrow> (r, w'))"

section \<open>Categorizer\<close>

text \<open>\<open>repos[pr["repo"]].append(pr)\<close> on the \<open>defaultdict(list)\<close>.\<close>

definition add_pr :: "(string \<times> pr list) list \<Rightarrow> pr \<Rightarrow> (string \<times> pr list) list" where
  "add_pr repos p = dict_set repos (repo p) (dict_get_default repos (repo p) [] @ [p])"

text \<open>The inner \<open>for cat in CATEGORIES\<close> with its \<open>break\<close>.\<close>

definition category_of :: "string \<Rightarrow> category" where
  "category_of repo_name =
     (case List.find (\<lambda>cat. snd cat repo_name) CATEGORIES of
        None \<Rightarrow> OTHER_CATEGORY
      | Some cat \<Rightarrow> fst cat)"

type_synonym repo_dict = "(string \<times> pr list) list"

definition add_repo ::
  "(string \<times> repo_dict) list \<Rightarrow> string \<times> pr list \<Rightarrow> (string \<times> repo_dict) list" where
  "add_repo categorized entry =
     (let cname = name (category_of (fst entry))
      in dict_set categorized cname
           (dict_set (dict_get_default categorized cname []) (fst entry)
              (sorted_desc pr_number (snd entry))))"

type_synonym result_dict = "(string \<times> category \<times> repo_dict) list"

definition add_category ::
  "(string \<times> repo_dict) list \<Rightarrow> result_dict \<Rightarrow> category \<Rightarrow> result_dict" where
  "add_category categorized result cat =
     (if name cat \<in> fst ` set categorized
      then dict_set result (name cat)
             (cat, sorted_desc (\<lambda>x. int (length (snd x)))
                     (dict_get_default categorized (name cat) []))
      else result)"

definition categorize_prs :: "pr list \<Rightarrow> result_dict" where
  "categorize_prs prs =
     (let repos = foldl add_pr [] prs;
          categorized = foldl add_repo [] repos;
          result = foldl (add_category categorized) [] (map fst CATEGORIES)
      in add_category categorized result OTHER_CATEGORY)"

section \<open>HTML renderer\<close>

definition html_escape :: "string \<Rightarrow> string" where
  \<open>html_escape text =
     str_replace (str_replace (str_replace (str_replace text ''&'' ''&amp;'')
       ''<'' ''&lt;'') ''>'' ''&gt;'') ''"'' ''&quot;''\<close>

definition pr_link :: "pr \<Rightarrow> string" where
  \<open>pr_link p =
     ''<a class="pr-item" href="'' @ url p @ ''" '' @
     ''target="_blank" rel="noopener">'' @
     ''<span class="pr-badge">merged</span>'' @
     html_escape (title p) @ ''</a>''\<close>

definition repo_lines :: "string \<times> pr list \<Rightarrow> string list" where
  \<open>repo_lines entry =
     (let pr_count = length (snd entry);
          count_label = (if pr_count = 1 then str_nat pr_count @ '' PR''
                         else str_nat pr_count @ '' PRs'');
          pr_links = concat (map pr_link (snd entry))
      in [''            <details class="repo-item">'' @
          ''<summary>'' @ CHEVRON_SVG @
          ''<span class="repo-name">'' @ fst entry @ ''</span>'' @
          ''<span class="repo-count">'' @ count_label @ ''</span>'' @
          ''</summary>'' @
          ''<div class="pr-list">'' @ pr_links @ ''</div></details>'',
          ''''])\<close>

definition category_lines :: "string \<times> category \<times> repo_dict \<Rightarrow> string list" where
  \<open>category_lines entry =
     (let cat_name = fst entry; config = fst (snd entry); repos = snd (snd entry)
      in [''        <!-- '' @ cat_name @ '' -->'',
          ''        <div class="org-section">''] @
         [if link_url config \<noteq> None \<and> link_url config \<noteq> Some []
          then ''          <div class="org-label">'' @ name config @ '' '' @
               ''<a href="'' @ the (link_url config) @ ''" target="_blank" '' @
               ''rel="noopener">'' @
               (case link_text config of None \<Rightarrow> ''None'' | Some t \<Rightarrow> t) @ ''</a></div>''
          else ''          <div class="org-label">'' @ name config @ ''</div>''] @
         [''          <div class="repo-list">'', ''''] @
         concat (map repo_lines repos) @
         [''          </div>'', ''        </div>'', ''''])\<close>

definition generate_contributions_html :: "result_dict \<Rightarrow> string" where
  \<open>generate_contributions_html categorized =
     str_join [NL]
       ([''      <!-- BEGIN CONTRIBUTIONS -->'',
         ''      <div class="contributions">'',
         ''        <h2>Open Source Contributions</h2>'',
         ''''] @
        concat (map category_lines categorized) @
        [''      </div>'',
         ''      <!-- END CONTRIBUTIONS -->''])\<close>

section \<open>File patcher\<close>

text \<open>
  \<open>index.html\<close> is opened in text mode: reading gives the characters of the file with
  every \<open>\r\n\<close> and every other \<open>\r\<close> turned into \<open>\n\<close>; writing, on a POSIX system,
  stores the text as it is. The world holds the characters of the file, which is taken to
  be valid UTF-8.
\<close>

fun universal_newlines :: "string \<Rightarrow> string" where
  "universal_newlines [] = []"
| "universal_newlines [c] = (if c = CR then [NL] else [c])"
| "universal_newlines (c # d # cs) =
     (if c = CR \<and> d = NL then NL # universal_newlines cs
      else if c = CR then NL # universal_newlines (d # cs)
      else c # universal_newlines (d # cs))"

text \<open>
  \<open>update_index_html\<close> reads the file, and either exits with code 1 or writes the
  patched text back. \<open>INDEX_PATH\<close> depends on where the script is installed and is a
  parameter; it only appears in the final message.
\<close>

definition update_index_html :: "string \<Rightarrow> string \<Rightarrow> 's world \<Rightarrow> unit outcome \<times> 's world" where
  "update_index_html INDEX_PATH new_html w =
     (let content = universal_newlines (index_html w);
          start = str_find content START_MARKER;
          end = str_find content END_MARKER
      in if start = - 1 \<or> end = - 1
         then (Exited 1, print ''Error: Could not find contribution markers in index.html'' w)
         else
           (let line_start = str_rfind content [NL] 0 (nat start);
                start = (if line_start \<noteq> - 1 then line_start + 1 else start);
                end = end + int (length END_MARKER);
                new_content = take (nat start) content @ new_html @ drop (nat end) content
            in (Returned (),
                print (''Updated '' @ INDEX_PATH)
                  (w\<lparr>index_html := new_content, writes := Suc (writes w)\<rparr>))))"

section \<open>Notions used to state the properties\<close>

text \<open>What escaping does to one character, as the specification words it.\<close>

definition entity_of :: "char \<Rightarrow> string" where
  \<open>entity_of c =
     (if c = CHR ''&'' then ''&amp;''
      else if c = CHR ''<'' then ''&lt;''
      else if c = CHR ''>'' then ''&gt;''
      else if c = CHR ''"'' then ''&quot;''
      else [c])\<close>

text \<open>
  The index at which the line containing position \<open>p\<close> of \<open>s\<close> begins: \<open>p\<close> minus the
  number of characters other than a newline that stand directly before \<open>p\<close>.
\<close>

definition line_begin :: "string \<Rightarrow> nat \<Rightarrow> nat" where
  "line_begin s p = p - length (takeWhile (\<lambda>c. c \<noteq> NL) (rev (take p s)))"

text \<open>
  The offset of the first start marker, the offset at which its line begins, and the
  offset immediately after the first end marker, in a text that contains both.
\<close>

definition marker_pos :: "string \<Rightarrow> nat" where
  "marker_pos content = nat (str_find content START_MARKER)"

definition region_begin :: "string \<Rightarrow> nat" where
  "region_begin content = line_begin content (marker_pos content)"

definition region_end :: "string \<Rightarrow> nat" where
  "region_end content = nat (str_find content END_MARKER) + length END_MARKER"






text \<open>
  The elements of a list in the order of their first occurrence; the pull requests of
  each repository in input order, repositories in the order of their first pull
  request; and the section of a category: its repositories, each with its pull requests
  by descending number, ordered by descending number of pull requests.
\<close>

fun first_seen :: "'a list \<Rightarrow> 'a list" where
  "first_seen [] = []"
| "first_seen (x # xs) = x # removeAll x (first_seen xs)"

definition groups :: "pr list \<Rightarrow> repo_dict" where
  "groups prs = map (\<lambda>r. (r, filter (\<lambda>p. repo p = r) prs)) (first_seen (map repo prs))"

definition section_of :: "pr list \<Rightarrow> category \<Rightarrow> repo_dict" where
  "section_of prs cat =
     sorted_desc (\<lambda>x. int (length (snd x)))
       (map (\<lambda>e. (fst e, sorted_desc pr_number (snd e)))
          (filter (\<lambda>e. name (category_of (fst e)) = name cat) (groups prs)))"

text \<open>
  A simulated search API over a fixed list of result items: it reports their number as
  \<open>total_count\<close> and serves them in pages of 100, page 1 first. An item is well formed when
  its URL has at least seven \<open>/\<close>-separated parts and the seventh reads as a number;
  \<open>kept\<close> turns the items whose \<open>owner/repo\<close> is not excluded into records, in order.
\<close>

definition sim_api :: "item list \<Rightarrow> 's server" where
  "sim_api xs page st =
     (Ok \<lparr>items = Some (take 100 (drop (100 * (page - 1)) xs)),
          total_count = Some (int (length xs))\<rparr>, st)"

definition url_parts :: "item \<Rightarrow> string list" where
  "url_parts it = split_on CHR ''/'' (html_url it)"

definition well_formed :: "item \<Rightarrow> bool" where
  "well_formed it = (7 \<le> length (url_parts it) \<and> py_int (url_parts it ! 6) \<noteq> None)"

definition full_repo_of :: "item \<Rightarrow> string" where
  "full_repo_of it = url_parts it ! 3 @ ''/'' @ url_parts it ! 4"

definition record_of :: "item \<Rightarrow> pr" where
  "record_of it =
     \<lparr>repo = full_repo_of it, pr_number = the (py_int (url_parts it ! 6)),
      title = item_title it, url = html_url it\<rparr>"

definition kept :: "item list \<Rightarrow> pr list" where
  "kept its = map record_of (filter (\<lambda>it. full_repo_of it \<notin> EXCLUDED_REPOS) its)"

definition pages_requested :: "nat \<Rightarrow> nat" where
  "pages_requested T = (if T = 0 then 1 else min 10 ((T + 99) div 100))"
section \<open>Searching in strings\<close>

lemma str_find_ge: "- 1 \<le> str_find s sub"
  by (induction s) (auto simp: Let_def)

lemma str_find_none: "str_find s sub = - 1 \<longleftrightarrow> \<not> sublist sub s"
proof (induction s)
  case Nil
  then show ?case by auto
next
  case (Cons c cs)
  have "- 1 \<le> str_find cs sub" by (rule str_find_ge)
  then have "str_find cs sub + 1 \<noteq> - 1" by arith
  with Cons show ?case
    by (auto simp: Let_def sublist_Cons_right)
qed

lemma str_find_prefix:
  "str_find s sub \<noteq> - 1 \<Longrightarrow> prefix sub (drop (nat (str_find s sub)) s)"
proof (induction s)
  case Nil
  then show ?case by (auto split: if_splits)
next
  case (Cons c cs)
  have ge: "- 1 \<le> str_find cs sub" by (rule str_find_ge)
  show ?case
  proof (cases "prefix sub (c # cs)")
    case True
    then show ?thesis by simp
  next
    case False
    with Cons.prems have nf: "str_find cs sub \<noteq> - 1" by (auto simp: Let_def split: if_splits)
    with ge have "nat (str_find cs sub + 1) = Suc (nat (str_find cs sub))" by arith
    with False nf Cons.IH show ?thesis by (simp add: Let_def)
  qed
qed

lemma str_find_first:
  "str_find s sub \<noteq> - 1 \<Longrightarrow> j < nat (str_find s sub) \<Longrightarrow> \<not> prefix sub (drop j s)"
proof (induction s arbitrary: j)
  case Nil
  then show ?case by (auto split: if_splits)
next
  case (Cons c cs)
  have ge: "- 1 \<le> str_find cs sub" by (rule str_find_ge)
  show ?case
  proof (cases "prefix sub (c # cs)")
    case True
    with Cons.prems show ?thesis by simp
  next
    case False
    with Cons.prems have nf: "str_find cs sub \<noteq> - 1" by (auto simp: Let_def split: if_splits)
    with ge have eq: "nat (str_find (c # cs) sub) = Suc (nat (str_find cs sub))"
      using False by (simp add: Let_def)
    show ?thesis
    proof (cases j)
      case 0
      with False show ?thesis by simp
    next
      case (Suc k)
      with Cons.prems eq have "k < nat (str_find cs sub)" by simp
      with Cons.IH nf Suc show ?thesis by simp
    qed
  qed
qed

lemma str_find_bound:
  "str_find s sub \<noteq> - 1 \<Longrightarrow> nat (str_find s sub) + length sub \<le> length s"
proof -
  assume "str_find s sub \<noteq> - 1"
  then have "prefix sub (drop (nat (str_find s sub)) s)" by (rule str_find_prefix)
  then have "length sub \<le> length (drop (nat (str_find s sub)) s)" by (rule prefix_length_le)
  moreover have "sub = [] \<or> nat (str_find s sub) \<le> length s" 
    using \<open>prefix sub (drop (nat (str_find s sub)) s)\<close> by (cases "nat (str_find s sub) \<le> length s") auto
  moreover have "nat (str_find s []) = 0" by (cases s) auto
  ultimately show ?thesis by auto
qed

lemma prefix_drop_sublist: "prefix sub (drop j s) \<Longrightarrow> sublist sub s"
  by (metis append_take_drop_id prefix_def sublist_appendI)

lemma str_find_eqI:
  assumes "prefix sub (drop i s)" and "i \<le> length s" and "\<forall>j<i. \<not> prefix sub (drop j s)"
  shows "str_find s sub = int i"
proof -
  from assms(1) have "sublist sub s" by (rule prefix_drop_sublist)
  then have nf: "str_find s sub \<noteq> - 1" by (simp add: str_find_none)
  have ge: "- 1 \<le> str_find s sub" by (rule str_find_ge)
  have "\<not> i < nat (str_find s sub)" using str_find_first [OF nf] assms(1) by blast
  moreover have "\<not> nat (str_find s sub) < i" using str_find_prefix [OF nf] assms(3) by blast
  ultimately show ?thesis using nf ge by arith
qed

lemma str_find_single:
  "str_find s [c] = (if c \<in> set s then int (length (takeWhile (\<lambda>x. x \<noteq> c) s)) else - 1)"
  by (induction s) (auto simp: Let_def)


lemma prefix_no_sep:
  assumes "c \<notin> set sub" and "prefix sub (xs @ c # ys)"
  shows "prefix sub xs"
proof -
  from assms(2) have "prefix sub xs \<or> (\<exists>us. sub = xs @ us \<and> prefix us (c # ys))"
    by (simp add: prefix_append)
  then show ?thesis
  proof
    assume "prefix sub xs"
    then show ?thesis .
  next
    assume "\<exists>us. sub = xs @ us \<and> prefix us (c # ys)"
    then obtain us where us: "sub = xs @ us" "prefix us (c # ys)" by blast
    show ?thesis
    proof (cases us)
      case Nil
      with us show ?thesis by simp
    next
      case (Cons u us')
      with us(2) have "u = c" by simp
      with Cons us(1) assms(1) show ?thesis by simp
    qed
  qed
qed

lemma str_find_append_sep:
  assumes "c \<notin> set sub" and "sub \<noteq> []" and "\<not> sublist sub A"
  shows "str_find (A @ c # B) sub =
           (if str_find B sub = - 1 then - 1 else int (length A) + 1 + str_find B sub)"
  using assms(3)
proof (induction A)
  case Nil
  from assms(1,2) have "\<not> prefix sub (c # B)" by (cases sub) auto
  then have "str_find (c # B) sub =
      (let r = str_find B sub in if r = - 1 then - 1 else r + 1)"
    by (simp only: str_find.simps if_False)
  then show ?case by (simp add: Let_def)
next
  case (Cons a A)
  from Cons.prems have np: "\<not> prefix sub (a # A)" and ns: "\<not> sublist sub A"
    by (auto simp: sublist_Cons_right)
  have "\<not> prefix sub ((a # A) @ c # B)"
  proof
    assume "prefix sub ((a # A) @ c # B)"
    with assms(1) have "prefix sub (a # A)" by (rule prefix_no_sep)
    with np show False ..
  qed
  then have "\<not> prefix sub (a # (A @ c # B))" by simp
  then have "str_find (a # (A @ c # B)) sub =
      (let r = str_find (A @ c # B) sub in if r = - 1 then - 1 else r + 1)"
    by (simp only: str_find.simps if_False)
  moreover note Cons.IH [OF ns]
  moreover have "- 1 \<le> str_find B sub" by (rule str_find_ge)
  ultimately show ?case by (cases "str_find B sub = - 1") (simp_all add: Let_def)
qed

lemma str_find_append_found:
  assumes "str_find F sub \<noteq> - 1"
  shows "str_find (F @ X) sub = str_find F sub"
  using assms
proof (induction F)
  case Nil
  then have "sub = []" by (simp split: if_splits)
  then show ?case by (cases X) auto
next
  case (Cons c cs)
  show ?case
  proof (cases "prefix sub (c # cs)")
    case True
    then have "prefix sub ((c # cs) @ X)" by (rule prefix_prefix)
    with True show ?thesis by simp
  next
    case False
    with Cons.prems have nf: "str_find cs sub \<noteq> - 1"
      by (auto simp: Let_def split: if_splits)
    from str_find_bound [OF nf] have "length sub \<le> length (c # cs)" by simp
    with False have "\<not> prefix sub ((c # cs) @ X)"
      unfolding prefix_append by auto
    with False Cons.IH [OF nf] show ?thesis by (simp add: Let_def)
  qed
qed


lemma no_occurrence_before:
  assumes "str_find (A @ X) sub \<noteq> - 1" and "nat (str_find (A @ X) sub) + length sub > length A"
  shows "\<not> sublist sub A"
proof
  assume "sublist sub A"
  then have nf: "str_find A sub \<noteq> - 1" by (simp add: str_find_none)
  then have "str_find (A @ X) sub = str_find A sub" by (rule str_find_append_found)
  with str_find_bound [OF nf] assms(2) show False by simp
qed


lemma takeWhile_stop: "c \<notin> set xs \<Longrightarrow> takeWhile (\<lambda>x. x \<noteq> c) (xs @ c # ys) = xs"
  by (induction xs) auto


lemma drop_length_append: "drop (length xs) (xs @ ys) = ys"
  by simp

lemma str_find_at_front: "str_find (sub @ X) sub = 0"
proof (cases "sub @ X")
  case Nil
  then show ?thesis by simp
next
  case (Cons a list)
  have "prefix sub (sub @ X)" by simp
  then have "prefix sub (a # list)" unfolding Cons .
  then show ?thesis unfolding Cons by simp
qed


lemma str_join_Cons: "ys \<noteq> [] \<Longrightarrow> str_join sep (x # ys) = x @ sep @ str_join sep ys"
  by (cases ys) auto

lemma str_join_snoc: "ys \<noteq> [] \<Longrightarrow> str_join sep (ys @ [z]) = str_join sep ys @ sep @ z"
  by (induction sep ys rule: str_join.induct) auto

lemma universal_newlines_Cons:
  "c \<noteq> CR \<Longrightarrow> universal_newlines (c # cs) = c # universal_newlines cs"
  by (cases cs) auto

lemma universal_newlines_CR:
  "\<exists>t. universal_newlines (CR # cs) = NL # universal_newlines t \<and> (t = cs \<or> cs = NL # t)"
  by (cases cs) auto

lemma universal_newlines_id: "CR \<notin> set s \<Longrightarrow> universal_newlines s = s"
  by (induction s) (auto simp: universal_newlines_Cons)

lemma prefix_universal_newlines:
  assumes "CR \<notin> set m" and "NL \<notin> set m"
  shows "prefix m (universal_newlines s) \<longleftrightarrow> prefix m s"
  using assms
proof (induction m arbitrary: s)
  case Nil
  show ?case by simp
next
  case (Cons x m)
  then have x: "x \<noteq> CR" "x \<noteq> NL" and m: "CR \<notin> set m" "NL \<notin> set m" by auto
  show ?case
  proof (cases s)
    case Nil
    then show ?thesis by simp
  next
    case (Cons c cs)
    show ?thesis
    proof (cases "c = CR")
      case True
      obtain t where "universal_newlines (CR # cs) = NL # universal_newlines t"
        using universal_newlines_CR by blast
      with True x show ?thesis unfolding Cons by simp
    next
      case False
      with Cons.IH [OF m, of cs] show ?thesis
        unfolding Cons by (simp add: universal_newlines_Cons)
    qed
  qed
qed

lemma sublist_universal_newlines:
  assumes "CR \<notin> set m" and "NL \<notin> set m" and "m \<noteq> []"
  shows "sublist m (universal_newlines s) \<longleftrightarrow> sublist m s"
proof (induction s rule: length_induct)
  case (1 s)
  show ?case
  proof (cases s)
    case Nil
    then show ?thesis by simp
  next
    case (Cons c cs)
    have hd: "\<not> prefix m (NL # ys)" "\<not> prefix m (CR # ys)" for ys
      using assms by (cases m; auto)+
    show ?thesis
    proof (cases "c = CR")
      case False
      have "sublist m (universal_newlines cs) \<longleftrightarrow> sublist m cs"
        using 1 Cons by simp
      moreover have "prefix m (c # universal_newlines cs) \<longleftrightarrow> prefix m (c # cs)"
        using prefix_universal_newlines [OF assms(1,2), of "c # cs"] False
        by (simp add: universal_newlines_Cons)
      ultimately show ?thesis
        unfolding Cons using False
        by (simp add: universal_newlines_Cons sublist_Cons_right)
    next
      case True
      obtain t where t: "universal_newlines (CR # cs) = NL # universal_newlines t"
        and tc: "t = cs \<or> cs = NL # t"
        using universal_newlines_CR by blast
      from tc have "length t < length s" unfolding Cons by auto
      with 1 have ih: "sublist m (universal_newlines t) \<longleftrightarrow> sublist m t" by blast
      have "sublist m cs \<longleftrightarrow> sublist m t"
        using tc hd by (auto simp: sublist_Cons_right)
      with ih show ?thesis
        unfolding Cons True t using hd by (simp add: sublist_Cons_right)
    qed
  qed
qed

section \<open>Escaping\<close>

lemma str_replace_single:
  "str_replace s [a] new = concat (map (\<lambda>c. if c = a then new else [c]) s)"
  by (induction s) auto

lemma html_escape_concat: "html_escape s = concat (map entity_of s)"
  unfolding html_escape_def str_replace_single
  by (induction s) (auto simp: entity_of_def)

text \<open>
  C5: escaping replaces each of \<open>&\<close>, \<open><\<close>, \<open>>\<close> and \<open>"\<close> by its entity, and since the
  ampersand is replaced first, the entities that the later replacements introduce are
  not escaped again: the result is the concatenation of the entities of the characters
  of the title. The title \<open>A & B <C> "D"\<close> becomes
  \<open>A &amp; B &lt;C&gt; &quot;D&quot;\<close>.
\<close>

theorem html_escape_entities:
  \<open>html_escape text = concat (map entity_of text) \<and>
   html_escape ''A & B <C> "D"'' = ''A &amp; B &lt;C&gt; &quot;D&quot;''\<close>
  by (simp add: html_escape_concat) (simp add: entity_of_def)

theorem html_escape_entities_witness:
  \<open>html_escape ''<&amp;>'' = ''&lt;&amp;amp;&gt;''\<close>
  using html_escape_entities [of \<open>''<&amp;>''\<close>] by (simp add: entity_of_def)

section \<open>Rendering\<close>

lemma sublist_mid: "sublist x m \<Longrightarrow> sublist x (a @ m @ b)"
proof -
  assume "sublist x m"
  then obtain ps ss where "m = ps @ x @ ss" unfolding sublist_def by blast
  then have "a @ m @ b = (a @ ps) @ x @ (ss @ b)" by simp
  then show ?thesis unfolding sublist_def by blast
qed

lemma sublist_concat_member: "x \<in> set xs \<Longrightarrow> sublist x (concat xs)"
proof -
  assume "x \<in> set xs"
  then obtain as bs where "xs = as @ x # bs" by (meson split_list)
  then have "concat xs = concat as @ x @ concat bs" by simp
  then show ?thesis unfolding sublist_def by blast
qed

lemma sublist_str_join: "x \<in> set xs \<Longrightarrow> sublist x (str_join sep xs)"
proof (induction sep xs rule: str_join.induct)
  case (3 sep a b ys)
  show ?case
  proof (cases "x = a")
    case True
    then show ?thesis by simp
  next
    case False
    with 3 have "sublist x (str_join sep (b # ys))" by simp
    then have "sublist x ((a @ sep) @ str_join sep (b # ys) @ [])" by (rule sublist_mid)
    then show ?thesis by simp
  qed
qed auto

lemma html_escape_append: "html_escape (xs @ ys) = html_escape xs @ html_escape ys"
  by (simp add: html_escape_concat)

lemma html_escape_other:
  \<open>c \<notin> {CHR ''&'', CHR ''<'', CHR ''>'', CHR ''"''} \<Longrightarrow> html_escape [c] = [c]\<close>
  by (simp add: html_escape_concat entity_of_def)

lemma rendered_contains_pr_link:
  assumes "(cat_name, config, repos) \<in> set cats" and "(repo_name, prs) \<in> set repos"
    and "p \<in> set prs"
  shows "sublist (pr_link p) (generate_contributions_html cats)"
proof -
  let ?line = "hd (repo_lines (repo_name, prs))"
  have "sublist (pr_link p) (concat (map pr_link prs))"
    using assms(3) by (intro sublist_concat_member) simp
  then have "sublist (pr_link p)
      ((''            <details class=\"repo-item\">'' @ ''<summary>'' @ CHEVRON_SVG @
          ''<span class=\"repo-name\">'' @ repo_name @ ''</span>'' @
          ''<span class=\"repo-count\">'' @
          (if length prs = 1 then str_nat (length prs) @ '' PR''
           else str_nat (length prs) @ '' PRs'') @ ''</span>'' @
          ''</summary>'' @ ''<div class=\"pr-list\">'') @ concat (map pr_link prs) @
          ''</div></details>'')"
    by (rule sublist_mid)
  then have "sublist (pr_link p) ?line"
    by (simp add: repo_lines_def Let_def)
  moreover have "?line \<in> set (repo_lines (repo_name, prs))"
    by (simp add: repo_lines_def Let_def)
  with assms(2) have "?line \<in> set (concat (map repo_lines repos))" by auto
  then have "?line \<in> set (category_lines (cat_name, config, repos))"
    by (simp add: category_lines_def Let_def)
  with assms(1) have "?line \<in> set (concat (map category_lines cats))" by auto
  then have "sublist ?line (generate_contributions_html cats)"
    unfolding generate_contributions_html_def by (intro sublist_str_join) simp
  ultimately show ?thesis by (rule sublist_order.order_trans)
qed

text \<open>
  C10: escaping leaves every character other than \<open>&\<close>, \<open><\<close>, \<open>>\<close> and \<open>"\<close> as it is, so
  a title without these four is unchanged; the single quote is such a character, and a
  title containing one appears in the rendered fragment, between the badge and the
  closing tag of its link, with the single quote as it was.
\<close>

theorem html_escape_other_chars:
  \<open>(c \<notin> {CHR ''&'', CHR ''<'', CHR ''>'', CHR ''"''} \<longrightarrow>
      html_escape (xs @ c # ys) = html_escape xs @ c # html_escape ys) \<and>
   (set s \<inter> {CHR ''&'', CHR ''<'', CHR ''>'', CHR ''"''} = {} \<longrightarrow> html_escape s = s) \<and>
   html_escape (xs @ CHR 0x27 # ys) = html_escape xs @ CHR 0x27 # html_escape ys \<and>
   ((cat_name, config, repos) \<in> set cats \<and> (repo_name, prs) \<in> set repos \<and> p \<in> set prs \<and>
    title p = xs @ CHR 0x27 # ys \<longrightarrow>
      sublist (''<span class="pr-badge">merged</span>'' @
               html_escape xs @ CHR 0x27 # html_escape ys @ ''</a>'')
        (generate_contributions_html cats))\<close>
proof (intro conjI impI)
  assume \<open>c \<notin> {CHR ''&'', CHR ''<'', CHR ''>'', CHR ''"''}\<close>
  then show "html_escape (xs @ c # ys) = html_escape xs @ c # html_escape ys"
    by (simp add: html_escape_concat entity_of_def)
next
  assume \<open>set s \<inter> {CHR ''&'', CHR ''<'', CHR ''>'', CHR ''"''} = {}\<close>
  then show "html_escape s = s"
    unfolding html_escape_concat by (induction s) (auto simp: entity_of_def)
next
  show "html_escape (xs @ CHR 0x27 # ys) = html_escape xs @ CHR 0x27 # html_escape ys"
    by (simp add: html_escape_concat entity_of_def)
next
  assume h: "(cat_name, config, repos) \<in> set cats \<and> (repo_name, prs) \<in> set repos \<and>
    p \<in> set prs \<and> title p = xs @ CHR 0x27 # ys"
  then have t: "html_escape (title p) = html_escape xs @ CHR 0x27 # html_escape ys"
    by (simp add: html_escape_concat entity_of_def)
  have "sublist (''<span class=\"pr-badge\">merged</span>'' @ html_escape (title p) @ ''</a>'')
     ((''<a class=\"pr-item\" href=\"'' @ url p @ ''\" '' @ ''target=\"_blank\" rel=\"noopener\">'') @
      (''<span class=\"pr-badge\">merged</span>'' @ html_escape (title p) @ ''</a>'') @ [])"
    by (rule sublist_appendI)
  then have "sublist (''<span class=\"pr-badge\">merged</span>'' @ html_escape (title p) @ ''</a>'')
     (pr_link p)"
    by (simp add: pr_link_def)
  moreover from h have "sublist (pr_link p) (generate_contributions_html cats)"
    using rendered_contains_pr_link by blast
  ultimately have "sublist (''<span class=\"pr-badge\">merged</span>'' @ html_escape (title p) @ ''</a>'')
     (generate_contributions_html cats)"
    by (rule sublist_order.order_trans)
  then show \<open>sublist (''<span class="pr-badge">merged</span>'' @
               html_escape xs @ CHR 0x27 # html_escape ys @ ''</a>'')
        (generate_contributions_html cats)\<close>
    unfolding t by simp
qed


theorem html_escape_other_chars_witness:
  \<open>html_escape (''it'' @ CHR 0x27 # ''s ok'') = ''it'' @ CHR 0x27 # ''s ok'' \<and>
   sublist (''<span class="pr-badge">merged</span>'' @ ''it'' @ CHR 0x27 # ''s ok'' @ ''</a>'')
     (generate_contributions_html
        [(''Other'', OTHER_CATEGORY,
          [(''a/b'', [\<lparr>repo = ''a/b'', pr_number = 7, title = ''it'' @ CHR 0x27 # ''s ok'',
                       url = ''https://github.com/a/b/pull/7''\<rparr>])])])\<close>
proof -
  let ?p = "\<lparr>repo = ''a/b'', pr_number = 7, title = ''it'' @ CHR 0x27 # ''s ok'',
             url = ''https://github.com/a/b/pull/7''\<rparr>"
  let ?cats = "[(''Other'', OTHER_CATEGORY, [(''a/b'', [?p])])]"
  note T = html_escape_other_chars [of "CHR ''s''" "''it''" "''s ok''"
      "''it'' @ CHR 0x27 # ''s ok''" "''Other''" OTHER_CATEGORY "[(''a/b'', [?p])]" ?cats
      "''a/b''" "[?p]" ?p]
  have e1: "html_escape ''it'' = ''it''" and e2: "html_escape ''s ok'' = ''s ok''"
    by (simp_all add: html_escape_concat entity_of_def)
  have h: "(''Other'', OTHER_CATEGORY, [(''a/b'', [?p])]) \<in> set ?cats \<and>
           (''a/b'', [?p]) \<in> set [(''a/b'', [?p])] \<and> ?p \<in> set [?p] \<and>
           title ?p = ''it'' @ CHR 0x27 # ''s ok''"
    by simp
  have n: \<open>set (''it'' @ CHR 0x27 # ''s ok'') \<inter> {CHR ''&'', CHR ''<'', CHR ''>'', CHR ''"''} = {}\<close>
    by simp
  from T n have a: "html_escape (''it'' @ CHR 0x27 # ''s ok'') = ''it'' @ CHR 0x27 # ''s ok''"
    by blast
  from T h have "sublist (''<span class=\"pr-badge\">merged</span>'' @
               html_escape ''it'' @ CHR 0x27 # html_escape ''s ok'' @ ''</a>'')
        (generate_contributions_html ?cats)"
    by blast
  then have "sublist (''<span class=\"pr-badge\">merged</span>'' @ ''it'' @ CHR 0x27 # ''s ok'' @ ''</a>'')
        (generate_contributions_html ?cats)"
    unfolding e1 e2 .
  with a show ?thesis by blast
qed

section \<open>Patching the file\<close>

lemma takeWhile_neq_less: "c \<in> set xs \<Longrightarrow> length (takeWhile (\<lambda>x. x \<noteq> c) xs) < length xs"
  by (induction xs) auto

lemma line_begin_pos:
  assumes "p \<le> length s" and "NL \<in> set (take p s)"
  shows "0 < line_begin s p"
proof -
  from assms(2) have "NL \<in> set (rev (take p s))" by simp
  then have "length (takeWhile (\<lambda>c. c \<noteq> NL) (rev (take p s))) < length (rev (take p s))"
    by (rule takeWhile_neq_less)
  with assms(1) show ?thesis by (simp add: line_begin_def)
qed

lemma line_begin_first_line:
  assumes "NL \<notin> set (take p s)" and "p \<le> length s"
  shows "line_begin s p = 0"
proof -
  from assms(1) have e: "takeWhile (\<lambda>c. c \<noteq> NL) (rev (take p s)) = rev (take p s)"
    by (intro takeWhile_eq_all_conv[THEN iffD2]) auto
  show ?thesis unfolding line_begin_def e using assms(2) by simp
qed

lemma str_rfind_NL:
  assumes "p \<le> length s"
  shows "str_rfind s [NL] 0 p =
           (if NL \<in> set (take p s) then int (line_begin s p) - 1 else - 1)"
proof (cases "NL \<in> set (take p s)")
  case False
  then show ?thesis by (simp add: str_rfind_def str_find_single Let_def)
next
  case True
  let ?k = "length (takeWhile (\<lambda>c. c \<noteq> NL) (rev (take p s)))"
  from True have "NL \<in> set (rev (take p s))" by simp
  then have "?k < length (rev (take p s))"
    by (rule takeWhile_neq_less)
  with assms have "?k < p" by simp
  with True assms show ?thesis
    by (simp add: str_rfind_def str_find_single Let_def line_begin_def)
qed

lemma marker_pos_le:
  "str_find content START_MARKER \<noteq> - 1 \<Longrightarrow> marker_pos content \<le> length content"
  using str_find_bound [of content START_MARKER] by (simp add: marker_pos_def)

lemma line_begin_le: "line_begin s p \<le> p"
  by (simp add: line_begin_def)

lemma marker_facts:
  "NL \<notin> set START_MARKER" "NL \<notin> set END_MARKER" "START_MARKER \<noteq> []" "END_MARKER \<noteq> []"
  "length START_MARKER = 28" "length END_MARKER = 26"
  "CR \<notin> set START_MARKER" "CR \<notin> set END_MARKER"
  by (simp_all add: START_MARKER_def END_MARKER_def)

lemma update_index_html_found:
  assumes "str_find (universal_newlines (index_html w)) START_MARKER \<noteq> - 1"
    and "str_find (universal_newlines (index_html w)) END_MARKER \<noteq> - 1"
  shows "update_index_html path new_html w =
           (Returned (),
            print (''Updated '' @ path)
              (w\<lparr>index_html :=
                   take (if NL \<in> set (take (marker_pos (universal_newlines (index_html w)))
                                        (universal_newlines (index_html w)))
                         then region_begin (universal_newlines (index_html w))
                         else marker_pos (universal_newlines (index_html w)))
                     (universal_newlines (index_html w))
                   @ new_html @
                   drop (region_end (universal_newlines (index_html w)))
                     (universal_newlines (index_html w)),
                 writes := Suc (writes w)\<rparr>))"
proof -
  let ?c = "universal_newlines (index_html w)"
  have le: "marker_pos ?c \<le> length ?c" using assms(1) by (rule marker_pos_le)
  have ge: "- 1 \<le> str_find ?c END_MARKER" by (rule str_find_ge)
  with assms(2) have e: "nat (str_find ?c END_MARKER + int (length END_MARKER)) = region_end ?c"
    by (simp add: region_end_def nat_add_distrib)
  have rf: "str_rfind ?c [NL] 0 (nat (str_find ?c START_MARKER)) =
         (if NL \<in> set (take (marker_pos ?c) ?c) then int (region_begin ?c) - 1 else - 1)"
    using str_rfind_NL [OF le] by (simp add: marker_pos_def region_begin_def)
  show ?thesis
  proof (cases "NL \<in> set (take (marker_pos ?c) ?c)")
    case True
    have "0 < region_begin ?c"
      unfolding region_begin_def using le True by (rule line_begin_pos)
    with True assms show ?thesis
      unfolding update_index_html_def Let_def rf e by (simp add: print_def)
  next
    case False
    with assms show ?thesis
      unfolding update_index_html_def Let_def rf e by (simp add: marker_pos_def print_def)
  qed
qed

lemma update_index_html_plain:
  assumes "CR \<notin> set (index_html w)"
    and "str_find (index_html w) START_MARKER \<noteq> - 1"
    and "str_find (index_html w) END_MARKER \<noteq> - 1"
  shows "update_index_html path new_html w =
           (Returned (),
            print (''Updated '' @ path)
              (w\<lparr>index_html :=
                   take (if NL \<in> set (take (marker_pos (index_html w)) (index_html w))
                         then region_begin (index_html w) else marker_pos (index_html w))
                     (index_html w)
                   @ new_html @ drop (region_end (index_html w)) (index_html w),
                 writes := Suc (writes w)\<rparr>))"
  using update_index_html_found [of w path new_html] assms
  by (simp add: universal_newlines_id)

lemma update_index_html_absent:
  assumes "\<not> sublist START_MARKER (index_html w) \<or> \<not> sublist END_MARKER (index_html w)"
  shows "update_index_html path new_html w =
           (Exited 1, print ''Error: Could not find contribution markers in index.html'' w)"
proof -
  have "sublist START_MARKER (universal_newlines (index_html w)) \<longleftrightarrow>
        sublist START_MARKER (index_html w)"
    using marker_facts(7) marker_facts(1) marker_facts(3) by (rule sublist_universal_newlines)
  moreover have "sublist END_MARKER (universal_newlines (index_html w)) \<longleftrightarrow>
        sublist END_MARKER (index_html w)"
    using marker_facts(8) marker_facts(2) marker_facts(4) by (rule sublist_universal_newlines)
  ultimately show ?thesis
    using assms by (auto simp: update_index_html_def Let_def str_find_none)
qed

text \<open>
  C7: when the start marker or the end marker does not occur in the file, the patcher
  prints a diagnostic and exits with code 1, and the file is neither changed nor
  written.
\<close>

theorem update_index_html_missing_marker:
  assumes "\<not> sublist START_MARKER (index_html w) \<or> \<not> sublist END_MARKER (index_html w)"
  shows "fst (update_index_html path new_html w) = Exited 1 \<and>
         stdout (snd (update_index_html path new_html w)) =
           stdout w @ [''Error: Could not find contribution markers in index.html''] \<and>
         index_html (snd (update_index_html path new_html w)) = index_html w \<and>
         writes (snd (update_index_html path new_html w)) = writes w"
  using update_index_html_absent [OF assms] by (simp add: print_def)

theorem update_index_html_missing_marker_witness:
  "\<not> sublist START_MARKER ''<p><!-- END CONTRIBUTIONS --></p>'' \<and>
   fst (update_index_html ''index.html'' ''NEW''
     \<lparr>server_state = (), requests = [], slept = [], stdout = [],
      index_html = ''<p><!-- END CONTRIBUTIONS --></p>'', writes = 0\<rparr>) = Exited 1 \<and>
   index_html (snd (update_index_html ''index.html'' ''NEW''
     \<lparr>server_state = (), requests = [], slept = [], stdout = [],
      index_html = ''<p><!-- END CONTRIBUTIONS --></p>'', writes = 0\<rparr>)) =
     ''<p><!-- END CONTRIBUTIONS --></p>'' \<and>
   writes (snd (update_index_html ''index.html'' ''NEW''
     \<lparr>server_state = (), requests = [], slept = [], stdout = [],
      index_html = ''<p><!-- END CONTRIBUTIONS --></p>'', writes = 0\<rparr>)) = 0"
proof -
  let ?w = "\<lparr>server_state = (), requests = [], slept = [], stdout = [],
             index_html = ''<p><!-- END CONTRIBUTIONS --></p>'', writes = 0\<rparr>"
  have h: "\<not> sublist START_MARKER (index_html ?w) \<or> \<not> sublist END_MARKER (index_html ?w)"
    by (simp add: START_MARKER_def sublist_Cons_right)
  have "\<not> sublist START_MARKER (index_html ?w)"
    by (simp add: START_MARKER_def sublist_Cons_right)
  then show ?thesis
    using update_index_html_missing_marker [OF h, of "''index.html''" "''NEW''"]
    by simp
qed

lemma line_begin_split:
  assumes "p \<le> length s" and "NL \<in> set (take p s)"
  shows "\<exists>A u. take p s = A @ NL # u \<and> NL \<notin> set u \<and> line_begin s p = Suc (length A)"
proof -
  from assms(2) have "NL \<in> set (rev (take p s))" by simp
  then obtain ys zs where r: "rev (take p s) = ys @ NL # zs" and ny: "NL \<notin> set ys"
    by (meson split_list_first)
  from ny have tw: "takeWhile (\<lambda>c. c \<noteq> NL) (ys @ NL # zs) = ys"
    by (induction ys) auto
  from r have "rev (rev (take p s)) = rev (ys @ NL # zs)" by (rule arg_cong)
  then have t: "take p s = rev zs @ NL # rev ys" by simp
  then have "length (take p s) = length (rev zs @ NL # rev ys)" by (rule arg_cong)
  with assms(1) have "p = length zs + 1 + length ys" by simp
  then have "line_begin s p = Suc (length (rev zs))"
    unfolding line_begin_def r tw by simp
  with t ny show ?thesis by (metis set_rev)
qed

lemma generate_contributions_html_shape:
  "\<exists>mid. generate_contributions_html cats =
     ''      '' @ START_MARKER @ [NL] @ mid @ [NL] @ ''      '' @ END_MARKER"
proof -
  let ?body = "[''      <div class=\"contributions\">'',
                ''        <h2>Open Source Contributions</h2>'', ''''] @
               concat (map category_lines cats) @ [''      </div>'']"
  have "generate_contributions_html cats =
          str_join [NL] ((''      '' @ START_MARKER) # ?body @ [''      '' @ END_MARKER])"
    by (simp add: generate_contributions_html_def START_MARKER_def END_MARKER_def)
  also have "\<dots> = (''      '' @ START_MARKER) @ [NL] @ str_join [NL] (?body @ [''      '' @ END_MARKER])"
    by (rule str_join_Cons) simp
  also have "str_join [NL] (?body @ [''      '' @ END_MARKER]) =
               str_join [NL] ?body @ [NL] @ ''      '' @ END_MARKER"
    by (rule str_join_snoc) simp
  finally show ?thesis by auto
qed

lemma str_find_indented_start: "str_find (''      '' @ START_MARKER @ X) START_MARKER = 6"
  by (simp add: START_MARKER_def Let_def)

lemma patch_again:
  assumes fs: "str_find c START_MARKER \<noteq> - 1" and fe: "str_find c END_MARKER \<noteq> - 1"
    and nl: "NL \<in> set (take (marker_pos c) c)"
    and ord: "region_begin c \<le> region_end c"
    and Fs: "str_find F START_MARKER = 6" and Fn: "NL \<notin> set (take 6 F)"
    and Fe: "str_find F END_MARKER = int (length F) - int (length END_MARKER)"
    and Ff: "str_find F END_MARKER \<noteq> - 1"
  defines "c1 \<equiv> take (region_begin c) c @ F @ drop (region_end c) c"
  shows "str_find c1 START_MARKER \<noteq> - 1 \<and> str_find c1 END_MARKER \<noteq> - 1 \<and>
         NL \<in> set (take (marker_pos c1) c1) \<and>
         region_begin c1 = region_begin c \<and>
         region_end c1 = region_begin c + length F \<and>
         take (region_begin c) c1 = take (region_begin c) c \<and>
         drop (region_begin c + length F) c1 = drop (region_end c) c"
proof -
  let ?p = "marker_pos c"
  let ?s = "region_begin c"
  let ?e = "region_end c"
  have ple: "?p \<le> length c" using fs by (rule marker_pos_le)
  from line_begin_split [OF ple nl] obtain A u where
    tp: "take ?p c = A @ NL # u" and nu: "NL \<notin> set u" and s: "?s = Suc (length A)"
    by (auto simp: region_begin_def)
  from tp have "length (take ?p c) = length (A @ NL # u)" by (rule arg_cong)
  with ple have p: "?p = length A + 1 + length u" by simp
  have c: "c = A @ NL # (u @ drop ?p c)"
    using tp append_take_drop_id [of ?p c] by (metis append.assoc append_Cons)
  have "take ?s c = take ?s (take ?p c)" using s p by (simp add: min_def)
  also have "\<dots> = A @ [NL]" using s tp by simp
  finally have ts: "take ?s c = A @ [NL]" .
  have sle: "?s \<le> length c" using s p ple by simp
  have nsA: "\<not> sublist START_MARKER A"
  proof (rule no_occurrence_before [where X = "NL # (u @ drop ?p c)"])
    show "str_find (A @ NL # u @ drop ?p c) START_MARKER \<noteq> - 1" using fs c by simp
    have "nat (str_find (A @ NL # u @ drop ?p c) START_MARKER) = ?p"
      using c by (simp add: marker_pos_def)
    then show "length A < nat (str_find (A @ NL # u @ drop ?p c) START_MARKER) + length START_MARKER"
      using p by simp
  qed
  have neA: "\<not> sublist END_MARKER A"
  proof (rule no_occurrence_before [where X = "NL # (u @ drop ?p c)"])
    show "str_find (A @ NL # u @ drop ?p c) END_MARKER \<noteq> - 1" using fe c by simp
    have "nat (str_find (A @ NL # u @ drop ?p c) END_MARKER) + length END_MARKER = ?e"
      using c by (simp add: region_end_def)
    then show "length A < nat (str_find (A @ NL # u @ drop ?p c) END_MARKER) + length END_MARKER"
      using ord s by simp
  qed
  have c1: "c1 = A @ NL # (F @ drop ?e c)" by (simp add: c1_def ts)
  have Fs6: "str_find F START_MARKER \<noteq> - 1" using Fs by simp
  have FXs: "str_find (F @ drop ?e c) START_MARKER = 6"
    using str_find_append_found [OF Fs6] Fs by simp
  have FXe: "str_find (F @ drop ?e c) END_MARKER = int (length F) - int (length END_MARKER)"
    using str_find_append_found [OF Ff] Fe by simp
  have find_s: "str_find c1 START_MARKER = int (length A) + 7"
    unfolding c1 using str_find_append_sep [OF marker_facts(1) marker_facts(3) nsA, of "F @ drop ?e c"] FXs
    by simp
  have find_e: "str_find c1 END_MARKER = int (length A) + 1 + (int (length F) - int (length END_MARKER))"
    unfolding c1 using str_find_append_sep [OF marker_facts(2) marker_facts(4) neA, of "F @ drop ?e c"] FXe Ff Fe
    by simp
  have lenF: "26 \<le> length F" "34 \<le> length F"
    using str_find_bound [OF Ff] str_find_bound [OF Fs6] Fs marker_facts(5,6) by simp_all
  have mp1: "marker_pos c1 = length A + 7" using find_s by (simp add: marker_pos_def)
  have t1: "take (length A + 7) c1 = A @ NL # take 6 F" unfolding c1 using lenF by simp
  have l6: "length (take 6 F) = 6" using lenF by simp
  have "takeWhile (\<lambda>x. x \<noteq> NL) (rev (take 6 F) @ NL # rev A) = rev (take 6 F)"
    using Fn by (intro takeWhile_stop) simp
  then have "line_begin c1 (length A + 7) = Suc (length A)"
    unfolding line_begin_def t1 using l6 by simp
  then have rb1: "region_begin c1 = ?s"
    using s mp1 by (simp add: region_begin_def [of c1])
  have re1: "region_end c1 = ?s + length F"
    unfolding region_end_def find_e using lenF s marker_facts(6) by simp
  have tk: "take ?s c1 = take ?s c" using sle by (simp add: c1_def)
  have dr: "drop (?s + length F) c1 = drop ?e c" using sle by (simp add: c1_def)
  have "NL \<in> set (take (marker_pos c1) c1)" unfolding mp1 t1 by simp
  with find_s find_e lenF rb1 re1 tk dr marker_facts(6) show ?thesis by simp
qed

lemma example_document:
  fixes PREFIX OLD SUFFIX :: string
  assumes "\<not> sublist START_MARKER PREFIX" and "\<not> sublist END_MARKER PREFIX"
    and "\<not> sublist END_MARKER OLD"
  defines "c \<equiv> PREFIX @ [NL] @ ''  '' @ START_MARKER @ [NL] @ OLD @ [NL] @ END_MARKER @ [NL] @ SUFFIX"
  shows "str_find c START_MARKER \<noteq> - 1 \<and> str_find c END_MARKER \<noteq> - 1 \<and>
         NL \<in> set (take (marker_pos c) c) \<and>
         take (region_begin c) c = PREFIX @ [NL] \<and>
         drop (region_end c) c = [NL] @ SUFFIX"
proof -
  let ?r3 = "END_MARKER @ NL # SUFFIX"
  let ?r2 = "OLD @ NL # ?r3"
  let ?r1 = "(''  '' @ START_MARKER) @ NL # ?r2"
  have c: "c = PREFIX @ NL # ?r1" by (simp add: c_def)
  have s1: "str_find ?r1 START_MARKER = 2"
    by (simp add: START_MARKER_def Let_def)
  have fs: "str_find c START_MARKER = int (length PREFIX) + 3"
    unfolding c
    using str_find_append_sep [OF marker_facts(1) marker_facts(3) assms(1), of ?r1] s1 by simp
  have e3: "str_find ?r3 END_MARKER = 0" by (rule str_find_at_front)
  have e2: "str_find ?r2 END_MARKER = int (length OLD) + 1"
    using str_find_append_sep [OF marker_facts(2) marker_facts(4) assms(3), of ?r3] e3 by simp
  have nl: "\<not> sublist END_MARKER (''  '' @ START_MARKER)"
    by (simp add: START_MARKER_def END_MARKER_def sublist_Cons_right)
  have e1: "str_find ?r1 END_MARKER = 30 + 1 + (int (length OLD) + 1)"
    using str_find_append_sep [OF marker_facts(2) marker_facts(4) nl, of ?r2] e2 marker_facts(5)
    by simp
  have fe: "str_find c END_MARKER = int (length PREFIX) + 1 + (30 + 1 + (int (length OLD) + 1))"
    unfolding c
    using str_find_append_sep [OF marker_facts(2) marker_facts(4) assms(2), of ?r1] e1 by simp
  have mp: "marker_pos c = length PREFIX + 3" using fs by (simp add: marker_pos_def)
  have tp: "take (length PREFIX + 3) c = PREFIX @ NL # ''  ''" by (simp add: c_def)
  have "takeWhile (\<lambda>x. x \<noteq> NL) (rev ''  '' @ NL # rev PREFIX) = rev ''  ''"
    by (intro takeWhile_stop) simp
  then have "line_begin c (length PREFIX + 3) = length PREFIX + 1"
    unfolding line_begin_def tp by simp
  then have rb: "region_begin c = length PREFIX + 1" by (simp add: region_begin_def mp)
  have re: "region_end c = length PREFIX + 1 + 30 + 1 + length OLD + 1 + 26"
    unfolding region_end_def fe marker_facts(6) by simp
  have "take (length PREFIX + 1) c = PREFIX @ [NL]" by (simp add: c_def)
  moreover have "drop (length PREFIX + 1 + 30 + 1 + length OLD + 1 + 26) c = [NL] @ SUFFIX"
  proof -
    let ?P = "PREFIX @ [NL] @ ''  '' @ START_MARKER @ [NL] @ OLD @ [NL] @ END_MARKER"
    have lp: "length PREFIX + 1 + 30 + 1 + length OLD + 1 + 26 = length ?P"
      by (simp add: marker_facts(5,6))
    have cp: "c = ?P @ ([NL] @ SUFFIX)" by (simp add: c_def)
    have "drop (length ?P) (?P @ ([NL] @ SUFFIX)) = [NL] @ SUFFIX"
      by (rule drop_length_append)
    then show ?thesis unfolding lp cp .
  qed
  moreover have "NL \<in> set (take (marker_pos c) c)" unfolding mp tp by simp
  ultimately show ?thesis using fs fe rb re by simp
qed


lemma rendered_fragment_facts:
  "str_find (generate_contributions_html cats) START_MARKER = 6 \<and>
   take 6 (generate_contributions_html cats) = ''      '' \<and>
   str_find (generate_contributions_html cats) END_MARKER \<noteq> - 1"
proof -
  let ?F = "generate_contributions_html cats"
  obtain mid where F: "?F = ''      '' @ START_MARKER @ [NL] @ mid @ [NL] @ ''      '' @ END_MARKER"
    using generate_contributions_html_shape by blast
  have Fs: "str_find ?F START_MARKER = 6"
    unfolding F by (rule str_find_indented_start)
  have t: "take 6 ?F = ''      ''" unfolding F by simp
  have "?F = (''      '' @ START_MARKER @ [NL] @ mid @ [NL] @ ''      '') @ END_MARKER @ []"
    unfolding F by simp
  then have "sublist END_MARKER ?F" unfolding sublist_def by blast
  then have "str_find ?F END_MARKER \<noteq> - 1" by (simp add: str_find_none)
  with Fs t show ?thesis by blast
qed


text \<open>
  Away from the first line the patcher does what its comment says: when both markers occur
  in the text read and the first start marker either has a newline somewhere before it or
  stands at offset 0, the file is written once, and the new text is the text read up to the
  beginning of the line of the first start marker, then the new fragment, then the text
  read from immediately after the first end marker. For a \<open>PREFIX\<close> containing neither
  marker and an \<open>OLD\<close> not containing the end marker, none of them with a carriage return,
  patching \<open>PREFIX\n  <start>\nOLD\n<end>\nSUFFIX\<close> with \<open>NEW\<close> gives \<open>PREFIX\nNEW\nSUFFIX\<close>.
\<close>

lemma update_index_html_region:
  assumes c: "c = universal_newlines (index_html w)"
    and "sublist START_MARKER c" and "sublist END_MARKER c"
    and "NL \<in> set (take (marker_pos c) c) \<or> marker_pos c = 0"
  shows "fst (update_index_html path new_html w) = Returned () \<and>
         writes (snd (update_index_html path new_html w)) = Suc (writes w) \<and>
         index_html (snd (update_index_html path new_html w)) =
           take (region_begin c) c @ new_html @ drop (region_end c) c"
proof -
  from assms have f: "str_find (universal_newlines (index_html w)) START_MARKER \<noteq> - 1"
      "str_find (universal_newlines (index_html w)) END_MARKER \<noteq> - 1"
    by (simp_all add: str_find_none)
  have z: "marker_pos c = 0 \<Longrightarrow> region_begin c = 0"
    by (simp add: region_begin_def line_begin_def)
  from assms(4) z have b: "(if NL \<in> set (take (marker_pos c) c)
         then region_begin c else marker_pos c) = region_begin c"
    by auto
  note u = update_index_html_found [OF f, of path new_html, folded c, unfolded b]
  show ?thesis by (simp add: u print_def)
qed

lemma update_index_html_example:
  assumes "\<not> sublist START_MARKER PREFIX" and "\<not> sublist END_MARKER PREFIX"
    and "\<not> sublist END_MARKER OLD"
    and "CR \<notin> set PREFIX" and "CR \<notin> set OLD" and "CR \<notin> set SUFFIX"
  shows "index_html (snd (update_index_html path NEW
           (w\<lparr>index_html := PREFIX @ [NL] @ ''  '' @ START_MARKER @ [NL] @ OLD @ [NL] @
                               END_MARKER @ [NL] @ SUFFIX\<rparr>))) =
         PREFIX @ [NL] @ NEW @ [NL] @ SUFFIX"
proof -
  let ?c = "PREFIX @ [NL] @ ''  '' @ START_MARKER @ [NL] @ OLD @ [NL] @ END_MARKER @ [NL] @ SUFFIX"
  let ?w = "w\<lparr>index_html := ?c\<rparr>"
  have d: "str_find ?c START_MARKER \<noteq> - 1 \<and> str_find ?c END_MARKER \<noteq> - 1 \<and>
         NL \<in> set (take (marker_pos ?c) ?c) \<and>
         take (region_begin ?c) ?c = PREFIX @ [NL] \<and>
         drop (region_end ?c) ?c = [NL] @ SUFFIX"
    using example_document [OF assms(1-3), of SUFFIX] by blast
  have "CR \<notin> set ?c" using assms(4-6) marker_facts(7,8) by simp
  then have cr: "CR \<notin> set (index_html ?w)" by simp
  have i: "index_html ?w = ?c" by simp
  from d have f: "str_find (index_html ?w) START_MARKER \<noteq> - 1"
      "str_find (index_html ?w) END_MARKER \<noteq> - 1"
    unfolding i by blast+
  from d have b: "(if NL \<in> set (take (marker_pos ?c) ?c) then region_begin ?c else marker_pos ?c) =
      region_begin ?c"
    by simp
  note u = update_index_html_plain [OF cr f, of path NEW, unfolded i b]
  from d have t: "take (region_begin ?c) ?c = PREFIX @ [NL]"
    and dr: "drop (region_end ?c) ?c = [NL] @ SUFFIX"
    by blast+
  show ?thesis unfolding u t dr by (simp add: print_def)
qed


text \<open>
  Carriage returns are not kept: a file with \<open>\r\n\<close> line ends is written back with \<open>\n\<close>
  line ends, outside the replaced region as well.
\<close>

lemma update_index_html_carriage_returns:
  "index_html (snd (update_index_html ''index.html'' ''NEW''
     \<lparr>server_state = (), requests = [], slept = [], stdout = [],
      index_html = ''a'' @ [CR, NL] @ START_MARKER @ [NL] @ ''OLD'' @ [NL] @ END_MARKER @
                   [CR, NL] @ ''b'',
      writes = 0\<rparr>)) = ''a'' @ [NL] @ ''NEW'' @ [NL] @ ''b''"
  by code_simp


text \<open>
  C1: for every file content containing both markers, the patcher replaces the region that
  begins at the start of the line containing the first start marker, leading indentation
  included, and ends immediately after the end marker, and keeps everything else. The code
  announces this (\<open># Include leading whitespace on the marker line\<close>) but guards the
  adjustment with \<open>if line_start != -1\<close>: when the start marker stands on the first line
  behind some indentation, no newline precedes it, \<open>rfind\<close> returns \<open>-1\<close>, and the region
  begins at the marker itself. For the file \<open>  <start>\nOLD\n<end>\<close> the line of the marker
  begins at offset 0 and the end marker ends the file, so replacing the region by \<open>NEW\<close>
  gives \<open>NEW\<close>; the code writes \<open>  NEW\<close>.
\<close>

theorem update_index_html_first_line_indentation:
  "sublist START_MARKER (''  '' @ START_MARKER @ [NL] @ ''OLD'' @ [NL] @ END_MARKER) \<and>
   sublist END_MARKER (''  '' @ START_MARKER @ [NL] @ ''OLD'' @ [NL] @ END_MARKER) \<and>
   region_begin (''  '' @ START_MARKER @ [NL] @ ''OLD'' @ [NL] @ END_MARKER) = 0 \<and>
   region_end (''  '' @ START_MARKER @ [NL] @ ''OLD'' @ [NL] @ END_MARKER) =
     length (''  '' @ START_MARKER @ [NL] @ ''OLD'' @ [NL] @ END_MARKER) \<and>
   index_html (snd (update_index_html ''index.html'' ''NEW''
     \<lparr>server_state = (), requests = [], slept = [], stdout = [],
      index_html = ''  '' @ START_MARKER @ [NL] @ ''OLD'' @ [NL] @ END_MARKER,
      writes = 0\<rparr>)) = ''  NEW'' \<and>
   take (region_begin (''  '' @ START_MARKER @ [NL] @ ''OLD'' @ [NL] @ END_MARKER))
     (''  '' @ START_MARKER @ [NL] @ ''OLD'' @ [NL] @ END_MARKER) @ ''NEW'' @
   drop (region_end (''  '' @ START_MARKER @ [NL] @ ''OLD'' @ [NL] @ END_MARKER))
     (''  '' @ START_MARKER @ [NL] @ ''OLD'' @ [NL] @ END_MARKER) = ''NEW'' \<and>
   ''  NEW'' \<noteq> ''NEW''"
  by code_simp


text \<open>
  Patching twice: when a newline precedes the first start marker, the first end marker does
  not end before the line of the start marker begins, the end marker text occurs in the
  rendered fragment only at its very end, and neither the file nor the fragment holds a
  carriage return, a second patch with the same fragment succeeds and leaves the file as
  the first patch made it.
\<close>

lemma update_index_html_twice:
  assumes "sublist START_MARKER (index_html w)" and "sublist END_MARKER (index_html w)"
    and "NL \<in> set (take (marker_pos (index_html w)) (index_html w))"
    and "region_begin (index_html w) \<le> region_end (index_html w)"
    and "str_find (generate_contributions_html cats) END_MARKER =
           int (length (generate_contributions_html cats)) - int (length END_MARKER)"
    and "CR \<notin> set (index_html w)" and "CR \<notin> set (generate_contributions_html cats)"
  shows "fst (update_index_html path (generate_contributions_html cats)
                (snd (update_index_html path (generate_contributions_html cats) w))) = Returned () \<and>
         index_html (snd (update_index_html path (generate_contributions_html cats)
                (snd (update_index_html path (generate_contributions_html cats) w)))) =
         index_html (snd (update_index_html path (generate_contributions_html cats) w))"
proof -
  let ?F = "generate_contributions_html cats"
  let ?c = "index_html w"
  let ?c1 = "take (region_begin ?c) ?c @ ?F @ drop (region_end ?c) ?c"
  have Fs: "str_find ?F START_MARKER = 6" and t6: "take 6 ?F = ''      ''"
    and Ff: "str_find ?F END_MARKER \<noteq> - 1"
    using rendered_fragment_facts by blast+
  from t6 have Fn: "NL \<notin> set (take 6 ?F)" by simp
  have f: "str_find ?c START_MARKER \<noteq> - 1" "str_find ?c END_MARKER \<noteq> - 1"
    using assms(1,2) by (simp_all add: str_find_none)
  note u1 = update_index_html_plain [OF assms(6) f, of path ?F]
  let ?w1 = "snd (update_index_html path ?F w)"
  have i1: "index_html ?w1 = ?c1" using assms(3) by (simp add: u1 print_def)
  have "set ?c1 \<subseteq> set ?c \<union> set ?F"
    using set_take_subset [of "region_begin ?c" ?c] set_drop_subset [of "region_end ?c" ?c]
    by auto
  with assms(6,7) have cr1: "CR \<notin> set (index_html ?w1)" unfolding i1 by blast
  note pa = patch_again [OF f assms(3) assms(4) Fs Fn assms(5) Ff]
  from pa have f1: "str_find (index_html ?w1) START_MARKER \<noteq> - 1"
      "str_find (index_html ?w1) END_MARKER \<noteq> - 1"
    unfolding i1 by blast+
  note u2 = update_index_html_plain [OF cr1 f1, of path ?F]
  from pa have n1: "NL \<in> set (take (marker_pos ?c1) ?c1)"
    and rb: "region_begin ?c1 = region_begin ?c"
    and re: "region_end ?c1 = region_begin ?c + length ?F"
    and tk: "take (region_begin ?c) ?c1 = take (region_begin ?c) ?c"
    and dr: "drop (region_begin ?c + length ?F) ?c1 = drop (region_end ?c) ?c"
    by blast+
  have r: "fst (update_index_html path ?F ?w1) = Returned ()" by (simp add: u2)
  have "index_html (snd (update_index_html path ?F ?w1)) =
          take (region_begin ?c1) ?c1 @ ?F @ drop (region_end ?c1) ?c1"
    unfolding u2 i1 using n1 by (simp add: print_def)
  also have "\<dots> = ?c1" unfolding rb re tk dr ..
  finally have "index_html (snd (update_index_html path ?F ?w1)) = index_html ?w1"
    unfolding i1 .
  with r show ?thesis by blast
qed


text \<open>
  C8: the rendered fragment begins with a line containing the start marker and ends with a
  line containing the end marker, so patching a document containing both markers twice
  with the same rendered fragment gives the same document as patching it once. The guard
  \<open>if line_start != -1\<close> breaks this for a file whose first line is the start marker: the
  first patch of \<open><start>\n<end>\<close> with the fragment rendered for one pull request leaves
  the fragment as the whole file, whose first line is the start marker behind the
  fragment's own six spaces; the second patch begins its region at the marker, keeps the
  six spaces and writes six spaces followed by the fragment.
\<close>

theorem update_index_html_second_patch_grows:
  "index_html (snd (update_index_html ''index.html''
      (generate_contributions_html (categorize_prs
         [\<lparr>repo = ''a/b'', pr_number = 7, title = ''Fix'',
           url = ''https://github.com/a/b/pull/7''\<rparr>]))
      \<lparr>server_state = (), requests = [], slept = [], stdout = [],
       index_html = START_MARKER @ [NL] @ END_MARKER, writes = 0\<rparr>)) =
     generate_contributions_html (categorize_prs
         [\<lparr>repo = ''a/b'', pr_number = 7, title = ''Fix'',
           url = ''https://github.com/a/b/pull/7''\<rparr>]) \<and>
   index_html (snd (update_index_html ''index.html''
      (generate_contributions_html (categorize_prs
         [\<lparr>repo = ''a/b'', pr_number = 7, title = ''Fix'',
           url = ''https://github.com/a/b/pull/7''\<rparr>]))
      (snd (update_index_html ''index.html''
      (generate_contributions_html (categorize_prs
         [\<lparr>repo = ''a/b'', pr_number = 7, title = ''Fix'',
           url = ''https://github.com/a/b/pull/7''\<rparr>]))
      \<lparr>server_state = (), requests = [], slept = [], stdout = [],
       index_html = START_MARKER @ [NL] @ END_MARKER, writes = 0\<rparr>)))) =
     ''      '' @ generate_contributions_html (categorize_prs
         [\<lparr>repo = ''a/b'', pr_number = 7, title = ''Fix'',
           url = ''https://github.com/a/b/pull/7''\<rparr>]) \<and>
   ''      '' @ generate_contributions_html (categorize_prs
         [\<lparr>repo = ''a/b'', pr_number = 7, title = ''Fix'',
           url = ''https://github.com/a/b/pull/7''\<rparr>]) \<noteq>
     generate_contributions_html (categorize_prs
         [\<lparr>repo = ''a/b'', pr_number = 7, title = ''Fix'',
           url = ''https://github.com/a/b/pull/7''\<rparr>])"
proof -
  let ?d = "START_MARKER @ [NL] @ END_MARKER"
  let ?w = "\<lparr>server_state = (), requests = [], slept = [], stdout = [],
       index_html = ?d, writes = 0\<rparr>"
  let ?p = "\<lparr>repo = ''a/b'', pr_number = 7, title = ''Fix'',
           url = ''https://github.com/a/b/pull/7''\<rparr>"
  let ?cats = "[(''Other'', OTHER_CATEGORY, [(''a/b'', [?p])])]"
  let ?F = "generate_contributions_html ?cats"
  have cz: "categorize_prs [?p] = ?cats" by code_simp
  have crd: "CR \<notin> set (index_html ?w)" by (simp add: START_MARKER_def END_MARKER_def)
  have i: "index_html ?w = ?d" by simp
  have f: "str_find (index_html ?w) START_MARKER \<noteq> - 1" "str_find (index_html ?w) END_MARKER \<noteq> - 1"
    unfolding i by code_simp+
  have m: "marker_pos ?d = 0" by code_simp
  have e: "region_end ?d = length ?d" by code_simp
  let ?w1 = "snd (update_index_html ''index.html'' ?F ?w)"
  have i1: "index_html ?w1 = ?F"
    unfolding update_index_html_plain [OF crd f] i m e by (simp add: print_def)
  have Fs: "str_find ?F START_MARKER = 6" and t6: "take 6 ?F = ''      ''"
    and Fe: "str_find ?F END_MARKER \<noteq> - 1"
    using rendered_fragment_facts by blast+
  have crF: "CR \<notin> set ?F" by code_simp
  have reF: "region_end ?F = length ?F" by code_simp
  have cr1: "CR \<notin> set (index_html ?w1)" unfolding i1 by (rule crF)
  have f1: "str_find (index_html ?w1) START_MARKER \<noteq> - 1" "str_find (index_html ?w1) END_MARKER \<noteq> - 1"
    unfolding i1 using Fs Fe by simp_all
  have m1: "marker_pos ?F = 6" using Fs by (simp add: marker_pos_def)
  have n1: "NL \<notin> set (take (marker_pos ?F) ?F)" unfolding m1 t6 by simp
  let ?w2 = "snd (update_index_html ''index.html'' ?F ?w1)"
  have "index_html ?w2 = take 6 ?F @ ?F @ drop (region_end ?F) ?F"
    unfolding update_index_html_plain [OF cr1 f1] i1 using n1 m1 by (simp add: print_def)
  then have i2: "index_html ?w2 = ''      '' @ ?F" unfolding t6 reF by simp
  have ne: "''      '' @ ?F \<noteq> ?F" by simp
  from i1 i2 ne show ?thesis unfolding cz by blast
qed

section \<open>Requests and retries\<close>

text \<open>
  The numbers the script prints are decimal numerals: the characters of \<open>str_nat n\<close> are
  digits whose value in base 10 is \<open>n\<close>.
\<close>

lemma digit_char_digit:
  assumes "d < 10"
  shows "is_digit (digit_char d) \<and> digit_val (digit_char d) = int d"
proof -
  from assms have "d \<in> set [0, 1, 2, 3, 4, 5, 6, 7, 8, 9]" by auto
  then show ?thesis
    by (auto simp: is_digit_def digit_char_def digit_val_def)
qed

lemma str_nat_decimal:
  "list_all is_digit (str_nat n) \<and>
   foldl (\<lambda>a c. 10 * a + digit_val c) 0 (str_nat n) = int n"
proof (induction n rule: str_nat.induct)
  case (1 n)
  show ?case
  proof (cases "n < 10")
    case True
    then show ?thesis
      using digit_char_digit [of n] by (subst (1 2) str_nat.simps) simp
  next
    case False
    have m: "n mod 10 < 10" by simp
    from False 1 have ih: "list_all is_digit (str_nat (n div 10))"
      "foldl (\<lambda>a c. 10 * a + digit_val c) 0 (str_nat (n div 10)) = int (n div 10)"
      by simp_all
    have s: "str_nat n = str_nat (n div 10) @ [digit_char (n mod 10)]"
      using False by (subst str_nat.simps) simp
    have "10 * int (n div 10) + int (n mod 10) = int n"
      by (simp add: zdiv_int zmod_int)
    with ih digit_char_digit [OF m] show ?thesis
      unfolding s by simp
  qed
qed

lemma str_int_examples:
  "str_int 404 = ''404'' \<and> str_int 60 = ''60'' \<and> str_int 0 = ''0'' \<and> str_int (- 5) = ''-5''"
  by code_simp


lemma attempt_loop_Ok:
  assumes "fst (srv page (server_state w)) = Ok data"
  shows "attempt_loop (Suc n) srv page w =
           (Returned data,
            w\<lparr>server_state := snd (srv page (server_state w)), requests := requests w @ [page]\<rparr>)"
  using assms by (simp add: Let_def case_prod_unfold)








section \<open>Fetching all pages\<close>

lemma item_pr_well_formed:
  assumes "well_formed it"
  shows "item_pr it =
           Inr (if full_repo_of it \<in> EXCLUDED_REPOS then None else Some (record_of it))"
  using assms
  by (auto simp: item_pr_def well_formed_def url_parts_def full_repo_of_def record_of_def Let_def
      simp del: split_on.simps)

lemma append_items_kept:
  assumes "\<forall>it\<in>set its. well_formed it"
  shows "append_items its acc = Inr (acc @ kept its)"
  using assms
proof (induction its arbitrary: acc)
  case Nil
  show ?case by (simp add: kept_def)
next
  case (Cons it its)
  then have w: "well_formed it" and r: "\<forall>it\<in>set its. well_formed it" by simp_all
  show ?case
    using Cons.IH [OF r] by (simp add: item_pr_well_formed [OF w] kept_def)
qed

lemma kept_append: "kept (xs @ ys) = kept xs @ kept ys"
  by (simp add: kept_def)

lemma github_request_sim:
  "github_request (sim_api xs) page w =
     (Returned \<lparr>items = Some (take 100 (drop (100 * (page - 1)) xs)),
               total_count = Some (int (length xs))\<rparr>,
      w\<lparr>requests := requests w @ [page]\<rparr>)"
proof -
  have "fst (sim_api xs page (server_state w)) =
      Ok \<lparr>items = Some (take 100 (drop (100 * (page - 1)) xs)),
          total_count = Some (int (length xs))\<rparr>"
    by (simp add: sim_api_def)
  then have "attempt_loop (Suc 2) (sim_api xs) page w =
      (Returned \<lparr>items = Some (take 100 (drop (100 * (page - 1)) xs)),
          total_count = Some (int (length xs))\<rparr>,
       w\<lparr>server_state := snd (sim_api xs page (server_state w)),
         requests := requests w @ [page]\<rparr>)"
    by (rule attempt_loop_Ok [of "sim_api xs" page w _ 2])
  then show ?thesis
    by (simp add: github_request_def numeral_3_eq_3 sim_api_def)
qed

lemma page_items:
  assumes "1 \<le> page" and "page \<le> 10"
  shows "take 100 (drop (100 * (page - 1)) xs) = take 100 (drop (100 * (page - 1)) (take 1000 xs))"
proof -
  have "drop (100 * (page - 1)) (take 1000 xs) = take (1000 - 100 * (page - 1)) (drop (100 * (page - 1)) xs)"
    by (simp add: drop_take)
  moreover have "100 \<le> 1000 - 100 * (page - 1)" using assms by arith
  ultimately show ?thesis by (simp add: min_def)
qed

lemma fetch_loop_last:
  assumes "github_request srv page w = (Returned \<lparr>items = Some its, total_count = Some T\<rparr>, w')"
    and "its = []"
  shows "fetch_loop srv page acc w = (Returned acc, w')"
  by (subst fetch_loop.simps) (simp add: assms)

lemma fetch_loop_page:
  assumes "github_request srv page w = (Returned \<lparr>items = Some its, total_count = Some T\<rparr>, w')"
    and "its \<noteq> []" and "append_items its acc = Inr acc'"
  shows "fetch_loop srv page acc w =
           (if T \<le> int (page * 100) \<or> 1000 \<le> page * 100 then (Returned acc', w')
            else fetch_loop srv (page + 1) acc' w')"
  by (subst fetch_loop.simps) (simp add: assms)

lemma fetch_loop_step:
  assumes "take 100 (drop (100 * (page - 1)) xs) \<noteq> []"
    and "append_items (take 100 (drop (100 * (page - 1)) xs)) acc = Inr acc'"
  shows "fetch_loop (sim_api xs) page acc w =
           (if length xs \<le> page * 100 \<or> 10 \<le> page
            then (Returned acc', w\<lparr>requests := requests w @ [page]\<rparr>)
            else fetch_loop (sim_api xs) (page + 1) acc' (w\<lparr>requests := requests w @ [page]\<rparr>))"
proof -
  have "(int (length xs) \<le> int (page * 100) \<or> 1000 \<le> page * 100) =
        (length xs \<le> page * 100 \<or> 10 \<le> page)" by auto
  with fetch_loop_page [OF github_request_sim assms, of w] show ?thesis by auto
qed

lemma fetch_loop_empty:
  assumes "take 100 (drop (100 * (page - 1)) xs) = []"
  shows "fetch_loop (sim_api xs) page acc w =
           (Returned acc, w\<lparr>requests := requests w @ [page]\<rparr>)"
  using github_request_sim assms by (rule fetch_loop_last)

lemma fetch_loop_sim:
  assumes wf: "\<forall>it\<in>set (take 1000 xs). well_formed it"
  shows "1 \<le> page \<Longrightarrow> page \<le> 10 \<Longrightarrow> 100 * (page - 1) < length xs \<Longrightarrow>
         fetch_loop (sim_api xs) page acc w =
           (Returned (acc @ kept (drop (100 * (page - 1)) (take 1000 xs))),
            w\<lparr>requests := requests w @ [page..<Suc (min 10 ((length xs + 99) div 100))]\<rparr>)"
proof (induction k \<equiv> "10 - page" arbitrary: page acc w)
  case 0
  then have p: "page = 10" by simp
  let ?its = "take 100 (drop 900 xs)"
  from 0 p have ne: "?its \<noteq> []" by simp
  have its: "?its = drop 900 (take 1000 xs)" by (simp add: drop_take)
  have "set ?its \<subseteq> set (take 1000 xs)" unfolding its by (rule set_drop_subset)
  with wf have "\<forall>it\<in>set ?its. well_formed it" by blast
  then have ap: "append_items ?its acc = Inr (acc @ kept ?its)" by (rule append_items_kept)
  from 0 p have n: "min 10 ((length xs + 99) div 100) = 10" by simp
  have e: "100 * (10 - 1) = (900::nat)" by simp
  from fetch_loop_step [of 10 xs acc "acc @ kept ?its" w, unfolded e, OF ne ap] show ?case
    unfolding p n e by (simp add: its)
next
  case (Suc k)
  let ?ys = "drop (100 * (page - 1)) (take 1000 xs)"
  let ?its = "take 100 (drop (100 * (page - 1)) xs)"
  from Suc have pl: "page < 10" by simp
  from Suc.prems have ne: "?its \<noteq> []" by simp
  have its: "?its = take 100 ?ys" using Suc.prems(1,2) by (rule page_items)
  have "set ?its \<subseteq> set (take 1000 xs)"
    unfolding its by (meson set_take_subset set_drop_subset subset_trans)
  with wf have "\<forall>it\<in>set ?its. well_formed it" by blast
  then have ap: "append_items ?its acc = Inr (acc @ kept ?its)" by (rule append_items_kept)
  show ?case
  proof (cases "length xs \<le> page * 100")
    case True
    with Suc.prems have n: "min 10 ((length xs + 99) div 100) = page" by arith
    from True have "length ?ys \<le> 100" by simp
    then have "?its = ?ys" unfolding its by simp
    with True fetch_loop_step [OF ne ap, of w] show ?thesis
      unfolding n by simp
  next
    case False
    with pl have n: "page < min 10 ((length xs + 99) div 100)" by arith
    have k: "k = 10 - (page + 1)" using Suc.hyps(2) by simp
    from False have nx: "100 * (page + 1 - 1) < length xs" by (simp add: mult.commute)
    have ih: "fetch_loop (sim_api xs) (page + 1) (acc @ kept ?its) (w\<lparr>requests := requests w @ [page]\<rparr>) =
        (Returned ((acc @ kept ?its) @ kept (drop (100 * (page + 1 - 1)) (take 1000 xs))),
         (w\<lparr>requests := requests w @ [page]\<rparr>)
           \<lparr>requests := requests (w\<lparr>requests := requests w @ [page]\<rparr>) @
              [page + 1..<Suc (min 10 ((length xs + 99) div 100))]\<rparr>)"
      using Suc.hyps(1) [OF k _ _ nx] pl by simp
    have idx: "100 * (page + 1 - 1) = 100 + 100 * (page - 1)" using Suc.prems(1) by arith
    have d: "drop (100 * (page + 1 - 1)) (take 1000 xs) = drop 100 ?ys"
      unfolding drop_drop idx ..
    have "kept (take 100 ?ys @ drop 100 ?ys) = kept ?ys"
      by (simp only: append_take_drop_id)
    then have "kept ?its @ kept (drop (100 * (page + 1 - 1)) (take 1000 xs)) = kept ?ys"
      unfolding its d kept_append .
    then have res: "(acc @ kept ?its) @ kept (drop (100 * (page + 1 - 1)) (take 1000 xs)) =
        acc @ kept ?ys" by simp
    have rq: "[page] @ [page + 1..<Suc (min 10 ((length xs + 99) div 100))] =
        [page..<Suc (min 10 ((length xs + 99) div 100))]"
      using n by (simp add: upt_conv_Cons)
    have stop: "\<not> (int (length xs) \<le> int (page * 100) \<or> 1000 \<le> page * 100)"
      using False pl by simp
    from False pl fetch_loop_step [OF ne ap, of w]
    have "fetch_loop (sim_api xs) page acc w =
        fetch_loop (sim_api xs) (page + 1) (acc @ kept ?its) (w\<lparr>requests := requests w @ [page]\<rparr>)"
      by simp
    also note ih
    finally show ?thesis
      unfolding res using rq by simp
  qed
qed

lemma fetch_loop_sim_all:
  assumes "\<forall>it\<in>set (take 1000 xs). well_formed it"
  shows "fetch_loop (sim_api xs) 1 [] w =
           (Returned (kept (take 1000 xs)),
            w\<lparr>requests := requests w @ [1..<Suc (pages_requested (length xs))]\<rparr>)"
proof (cases "xs = []")
  case True
  then show ?thesis
    using fetch_loop_empty [of 1 xs "[]" w] by (simp add: pages_requested_def kept_def)
next
  case False
  then have "100 * (1 - 1) < length xs" by simp
  from fetch_loop_sim [OF assms _ _ this, of "[]" w] False show ?thesis
    by (simp add: pages_requested_def)
qed


text \<open>
  C2 (as amended): against a simulated API that reports the number \<open>T\<close> of its items and
  serves them in pages of 100, all of the first 1000 items being well formed, the fetch
  requests the pages 1, 2, ... up to page \<open>max 1 (min 10 (ceil (T / 100)))\<close> in this order
  and no other, never waits, and returns the records of the first 1000 items in order,
  without those whose \<open>owner/repo\<close> is excluded. At every page before the last one the
  page had items and \<open>page * 100\<close> had reached neither \<open>T\<close> nor 1000; at the last page the
  page is empty, or \<open>page * 100\<close> has reached \<open>T\<close> or 1000.
\<close>

theorem fetch_merged_prs_pages:
  assumes "\<forall>it\<in>set (take 1000 xs). well_formed it"
  shows "fst (fetch_merged_prs (sim_api xs) w) = Returned (kept (take 1000 xs)) \<and>
         requests (snd (fetch_merged_prs (sim_api xs) w)) =
           requests w @ [1..<Suc (pages_requested (length xs))] \<and>
         slept (snd (fetch_merged_prs (sim_api xs) w)) = slept w \<and>
         (\<forall>p. 1 \<le> p \<and> p < pages_requested (length xs) \<longrightarrow>
              take 100 (drop (100 * (p - 1)) xs) \<noteq> [] \<and> p * 100 < length xs \<and> p * 100 < 1000) \<and>
         (take 100 (drop (100 * (pages_requested (length xs) - 1)) xs) = [] \<or>
          length xs \<le> pages_requested (length xs) * 100 \<or>
          1000 \<le> pages_requested (length xs) * 100)"
proof -
  note L = fetch_loop_sim_all [OF assms, of w]
  have a1: "fst (fetch_merged_prs (sim_api xs) w) = Returned (kept (take 1000 xs))"
    unfolding fetch_merged_prs_def L by simp
  have a2: "requests (snd (fetch_merged_prs (sim_api xs) w)) =
           requests w @ [1..<Suc (pages_requested (length xs))]"
    unfolding fetch_merged_prs_def L by (simp add: print_def)
  have a3: "slept (snd (fetch_merged_prs (sim_api xs) w)) = slept w"
    unfolding fetch_merged_prs_def L by (simp add: print_def)
  have a4: "take 100 (drop (100 * (p - 1)) xs) \<noteq> [] \<and> p * 100 < length xs \<and> p * 100 < 1000"
    if p: "1 \<le> p \<and> p < pages_requested (length xs)" for p
  proof -
    from p have "length xs \<noteq> 0" by (auto simp: pages_requested_def)
    with p have a: "p < 10" and b: "p < (length xs + 99) div 100"
      by (simp_all add: pages_requested_def)
    from b have c: "p * 100 < length xs" by arith
    from a have d: "p * 100 < 1000" by simp
    from c p have "100 * (p - 1) < length xs" by arith
    then have "take 100 (drop (100 * (p - 1)) xs) \<noteq> []" by simp
    with c d show ?thesis by blast
  qed
  have a5: "take 100 (drop (100 * (pages_requested (length xs) - 1)) xs) = [] \<or>
          length xs \<le> pages_requested (length xs) * 100 \<or>
          1000 \<le> pages_requested (length xs) * 100"
  proof (cases "length xs = 0")
    case True
    then show ?thesis by simp
  next
    case False
    then have "pages_requested (length xs) = min 10 ((length xs + 99) div 100)"
      by (simp add: pages_requested_def)
    moreover have "length xs \<le> min 10 ((length xs + 99) div 100) * 100 \<or>
        1000 \<le> min 10 ((length xs + 99) div 100) * 100" by arith
    ultimately show ?thesis by simp
  qed
  from a1 a2 a3 a4 a5 show ?thesis by blast
qed


theorem fetch_merged_prs_pages_witness:
  "fst (fetch_merged_prs
         (sim_api (replicate 120 \<lparr>html_url = ''https://github.com/a/b/pull/7'', item_title = ''Fix''\<rparr> @
                   [\<lparr>html_url = ''https://github.com/dream11/odin/pull/3'', item_title = ''Skip''\<rparr>]))
         \<lparr>server_state = (), requests = [], slept = [], stdout = [], index_html = '''', writes = 0\<rparr>) =
     Returned (replicate 120
       \<lparr>repo = ''a/b'', pr_number = 7, title = ''Fix'', url = ''https://github.com/a/b/pull/7''\<rparr>) \<and>
   requests (snd (fetch_merged_prs
         (sim_api (replicate 120 \<lparr>html_url = ''https://github.com/a/b/pull/7'', item_title = ''Fix''\<rparr> @
                   [\<lparr>html_url = ''https://github.com/dream11/odin/pull/3'', item_title = ''Skip''\<rparr>]))
         \<lparr>server_state = (), requests = [], slept = [], stdout = [], index_html = '''', writes = 0\<rparr>)) =
     [1, 2]"
proof -
  let ?good = "\<lparr>html_url = ''https://github.com/a/b/pull/7'', item_title = ''Fix''\<rparr>"
  let ?excl = "\<lparr>html_url = ''https://github.com/dream11/odin/pull/3'', item_title = ''Skip''\<rparr>"
  let ?xs = "replicate 120 ?good @ [?excl]"
  let ?w = "\<lparr>server_state = (), requests = [], slept = [], stdout = [], index_html = '''', writes = 0\<rparr>"
  have wg: "well_formed ?good" by code_simp
  have we: "well_formed ?excl" by code_simp
  have h: "\<forall>it\<in>set (take 1000 ?xs). well_formed it"
    using wg we by (auto dest!: in_set_takeD)
  have kg: "full_repo_of ?good \<notin> EXCLUDED_REPOS" by code_simp
  have ke: "full_repo_of ?excl \<in> EXCLUDED_REPOS" by code_simp
  have rg: "record_of ?good =
      \<lparr>repo = ''a/b'', pr_number = 7, title = ''Fix'', url = ''https://github.com/a/b/pull/7''\<rparr>"
    by code_simp
  have k: "kept (take 1000 ?xs) = replicate 120
       \<lparr>repo = ''a/b'', pr_number = 7, title = ''Fix'', url = ''https://github.com/a/b/pull/7''\<rparr>"
    using kg ke by (simp add: kept_def rg)
  have n: "[1..<Suc (pages_requested (length ?xs))] = [1, 2]"
    by (simp add: pages_requested_def upt_conv_Cons)
  from fetch_merged_prs_pages [OF h, of ?w] show ?thesis
    unfolding k n by simp
qed

text \<open>
  The claim as stated fails for \<open>T = 0\<close>: the loop asks for page 1 before it can know the
  total, so one request is made where \<open>ceil (0 / 100) = 0\<close>.
\<close>

theorem fetch_merged_prs_no_results_counterexample:
  "requests (snd (fetch_merged_prs (sim_api [])
     \<lparr>server_state = (), requests = [], slept = [], stdout = [], index_html = '''', writes = 0\<rparr>)) = [1] \<and>
   length (requests (snd (fetch_merged_prs (sim_api [])
     \<lparr>server_state = (), requests = [], slept = [], stdout = [], index_html = '''', writes = 0\<rparr>))) \<noteq>
   min 10 ((length ([] :: item list) + 99) div 100)"
  by code_simp

section \<open>Categorizing\<close>

lemma set_first_seen [simp]: "set (first_seen xs) = set xs"
  by (induction xs) auto

lemma distinct_first_seen [simp]: "distinct (first_seen xs)"
  by (induction xs) (auto simp: distinct_removeAll)

lemma first_seen_snoc:
  "first_seen (xs @ [y]) = (if y \<in> set xs then first_seen xs else first_seen xs @ [y])"
  by (induction xs) (auto simp: removeAll_id)

lemma fst_set_dict_set: "fst ` set (dict_set d k v) = insert k (fst ` set d)"
  by (auto simp: dict_set_def image_iff split: if_splits) force+

lemma map_fst_dict_set:
  "map fst (dict_set d k v) = (if k \<in> fst ` set d then map fst d else map fst d @ [k])"
  by (auto simp: dict_set_def case_prod_unfold intro!: map_idI)

lemma map_of_update_other:
  "k' \<noteq> k \<Longrightarrow> map_of (map (\<lambda>(a, b). if a = k then (a, v) else (a, b)) d) k' = map_of d k'"
  by (induction d) (simp_all add: case_prod_unfold)

lemma map_of_update_same:
  "k \<in> fst ` set d \<Longrightarrow> map_of (map (\<lambda>(a, b). if a = k then (a, v) else (a, b)) d) k = Some v"
  by (induction d) (auto simp: case_prod_unfold)

lemma dict_get_dict_set:
  "dict_get_default (dict_set d k v) k' dflt = (if k' = k then v else dict_get_default d k' dflt)"
proof (cases "k \<in> fst ` set d")
  case True
  then show ?thesis
    by (simp add: dict_set_def dict_get_default_def map_of_update_other map_of_update_same)
next
  case False
  then have "map_of d k = None" by (simp add: map_of_eq_None_iff)
  with False show ?thesis
    by (auto simp: dict_set_def dict_get_default_def map_of_append map_add_def split: option.splits)
qed

lemma map_of_keyed:
  "map_of (map (\<lambda>r. (r, f r)) ks) k = (if k \<in> set ks then Some (f k) else None)"
  by (induction ks) auto

lemma fst_set_groups: "fst ` set (groups prs) = repo ` set prs"
  by (auto simp: groups_def image_iff)

lemma map_fst_groups: "map fst (groups prs) = first_seen (map repo prs)"
  by (simp add: groups_def comp_def)

lemma groups_snoc: "add_pr (groups prs) p = groups (prs @ [p])"
proof (cases "repo p \<in> repo ` set prs")
  case True
  then have k: "repo p \<in> fst ` set (groups prs)" by (simp add: fst_set_groups)
  from True have g: "dict_get_default (groups prs) (repo p) [] = filter (\<lambda>q. repo q = repo p) prs"
    by (simp add: dict_get_default_def groups_def map_of_keyed)
  from True have fs: "first_seen (map repo (prs @ [p])) = first_seen (map repo prs)"
    by (simp add: first_seen_snoc)
  have lhs: "dict_set (groups prs) (repo p) (filter (\<lambda>q. repo q = repo p) prs @ [p]) =
      map (\<lambda>r. if r = repo p then (r, filter (\<lambda>q. repo q = repo p) prs @ [p])
               else (r, filter (\<lambda>q. repo q = r) prs)) (first_seen (map repo prs))"
    using k by (simp add: dict_set_def) (simp add: groups_def comp_def)
  have rhs: "groups (prs @ [p]) =
      map (\<lambda>r. (r, filter (\<lambda>q. repo q = r) (prs @ [p]))) (first_seen (map repo prs))"
    unfolding groups_def fs ..
  show ?thesis
    unfolding add_pr_def g lhs rhs by (rule map_cong) auto
next
  case False
  then have k: "repo p \<notin> fst ` set (groups prs)" by (simp add: fst_set_groups)
  from False have g: "dict_get_default (groups prs) (repo p) [] = []"
    by (simp add: dict_get_default_def groups_def map_of_keyed)
  from False have fs: "first_seen (map repo (prs @ [p])) = first_seen (map repo prs) @ [repo p]"
    by (simp add: first_seen_snoc)
  from False have e: "filter (\<lambda>q. repo q = repo p) prs = []"
    by (auto simp: filter_empty_conv image_iff)
  have lhs: "dict_set (groups prs) (repo p) ([] @ [p]) = groups prs @ [(repo p, [p])]"
    using k by (simp add: dict_set_def)
  have "map (\<lambda>r. (r, filter (\<lambda>q. repo q = r) (prs @ [p]))) (first_seen (map repo prs)) =
        map (\<lambda>r. (r, filter (\<lambda>q. repo q = r) prs)) (first_seen (map repo prs))"
    using False by (intro map_cong) auto
  then have rhs: "groups (prs @ [p]) = groups prs @ [(repo p, [p])]"
    unfolding groups_def fs using e by simp
  show ?thesis
    unfolding add_pr_def g lhs rhs ..
qed

lemma foldl_add_pr: "foldl add_pr [] prs = groups prs"
proof (induction prs rule: rev_induct)
  case Nil
  show ?case by (simp add: groups_def)
next
  case (snoc p prs)
  then show ?case by (simp add: groups_snoc)
qed

lemma foldl_add_repo:
  assumes "distinct (map fst rs)"
  shows "(\<forall>n. dict_get_default (foldl add_repo [] rs) n [] =
            map (\<lambda>e. (fst e, sorted_desc pr_number (snd e)))
              (filter (\<lambda>e. name (category_of (fst e)) = n) rs)) \<and>
         fst ` set (foldl add_repo [] rs) = (\<lambda>e. name (category_of (fst e))) ` set rs"
  using assms
proof (induction rs rule: rev_induct)
  case Nil
  show ?case by (simp add: dict_get_default_def)
next
  case (snoc e rs)
  let ?C = "foldl add_repo [] rs"
  let ?g = "\<lambda>e. (fst e, sorted_desc pr_number (snd e))"
  let ?cn = "name (category_of (fst e))"
  from snoc.prems have d: "distinct (map fst rs)" and ne: "fst e \<notin> fst ` set rs" by auto
  from snoc.IH [OF d] have
    get: "\<And>n. dict_get_default ?C n [] =
            map ?g (filter (\<lambda>e. name (category_of (fst e)) = n) rs)"
    and keys: "fst ` set ?C = (\<lambda>e. name (category_of (fst e))) ` set rs"
    by blast+
  have "fst e \<notin> fst ` set (map ?g (filter (\<lambda>x. name (category_of (fst x)) = ?cn) rs))"
    using ne by (auto simp: image_iff)
  then have inner: "dict_set (dict_get_default ?C ?cn []) (fst e) (sorted_desc pr_number (snd e)) =
      map ?g (filter (\<lambda>x. name (category_of (fst x)) = ?cn) (rs @ [e]))"
    unfolding get by (simp add: dict_set_def)
  have step: "foldl add_repo [] (rs @ [e]) =
      dict_set ?C ?cn (map ?g (filter (\<lambda>x. name (category_of (fst x)) = ?cn) (rs @ [e])))"
    using inner by (simp add: add_repo_def Let_def)
  show ?case
    unfolding step by (auto simp: dict_get_dict_set get fst_set_dict_set keys)
qed

lemma add_category_eq:
  "add_category (foldl add_repo [] (groups prs)) result cat =
     (if \<exists>p\<in>set prs. name (category_of (repo p)) = name cat
      then dict_set result (name cat) (cat, section_of prs cat) else result)"
proof -
  have d: "distinct (map fst (groups prs))" by (simp add: map_fst_groups)
  note F = foldl_add_repo [OF d]
  from F have get: "dict_get_default (foldl add_repo [] (groups prs)) (name cat) [] =
            map (\<lambda>e. (fst e, sorted_desc pr_number (snd e)))
              (filter (\<lambda>e. name (category_of (fst e)) = name cat) (groups prs))"
    by blast
  from F have "fst ` set (foldl add_repo [] (groups prs)) =
      (\<lambda>e. name (category_of (fst e))) ` set (groups prs)" by blast
  also have "\<dots> = (\<lambda>r. name (category_of r)) ` (fst ` set (groups prs))"
    by (simp add: image_image)
  also have "\<dots> = (\<lambda>p. name (category_of (repo p))) ` set prs"
    by (simp add: fst_set_groups image_image)
  finally have keys: "name cat \<in> fst ` set (foldl add_repo [] (groups prs)) \<longleftrightarrow>
      (\<exists>p\<in>set prs. name (category_of (repo p)) = name cat)"
    by (auto simp: image_iff) metis
  show ?thesis
    unfolding add_category_def get keys section_of_def ..
qed

lemma categorize_prs_eq:
  "categorize_prs prs =
     concat (map (\<lambda>c. if \<exists>p\<in>set prs. name (category_of (repo p)) = name c
                      then [(name c, c, section_of prs c)] else [])
               (map fst CATEGORIES @ [OTHER_CATEGORY]))"
  unfolding categorize_prs_def Let_def foldl_add_pr
  by (simp add: add_category_eq CATEGORIES_def OTHER_CATEGORY_def dict_set_def)

lemma sorted_desc_props:
  "set (sorted_desc k xs) = set xs" "mset (sorted_desc k xs) = mset xs"
  "length (sorted_desc k xs) = length xs"
  "sorted_wrt (\<lambda>a b. k b \<le> k a) (sorted_desc k xs)"
  "filter (\<lambda>x. k x = m) (sorted_desc k xs) = filter (\<lambda>x. k x = m) xs"
proof -
  show "set (sorted_desc k xs) = set xs" "mset (sorted_desc k xs) = mset xs"
    "length (sorted_desc k xs) = length xs"
    by (simp_all add: sorted_desc_def)
  have "sorted (map (\<lambda>x. - k x) (sort_key (\<lambda>x. - k x) xs))" by (rule sorted_sort_key)
  then show "sorted_wrt (\<lambda>a b. k b \<le> k a) (sorted_desc k xs)"
    by (simp add: sorted_desc_def sorted_map)
  have "filter (\<lambda>x. - k x = - m) (sort_key (\<lambda>x. - k x) xs) = filter (\<lambda>x. - k x = - m) xs"
    by (rule sort_key_stable)
  then show "filter (\<lambda>x. k x = m) (sorted_desc k xs) = filter (\<lambda>x. k x = m) xs"
    by (simp add: sorted_desc_def)
qed

lemma category_of_cases:
  "category_of r =
     (if sublist ''odin'' r then fst (CATEGORIES ! 0)
      else if sublist ''vertx'' r then fst (CATEGORIES ! 1) else OTHER_CATEGORY)"
  by (simp add: category_of_def CATEGORIES_def)

lemma category_of_configs: "category_of r \<in> set (map fst CATEGORIES @ [OTHER_CATEGORY])"
  by (simp add: category_of_cases) (simp add: CATEGORIES_def)

lemma name_inj_configs:
  assumes "c \<in> set (map fst CATEGORIES @ [OTHER_CATEGORY])"
    and "c' \<in> set (map fst CATEGORIES @ [OTHER_CATEGORY])" and "name c = name c'"
  shows "c = c'"
  using assms by (auto simp: CATEGORIES_def OTHER_CATEGORY_def)

lemma category_name_eq:
  assumes "c \<in> set (map fst CATEGORIES @ [OTHER_CATEGORY])"
  shows "name (category_of r) = name c \<longleftrightarrow> category_of r = c"
  using name_inj_configs [OF category_of_configs assms] by auto

lemma category_of_first_match:
  "(\<forall>i<length CATEGORIES. snd (CATEGORIES ! i) r \<and> (\<forall>j<i. \<not> snd (CATEGORIES ! j) r) \<longrightarrow>
       category_of r = fst (CATEGORIES ! i)) \<and>
   ((\<forall>i<length CATEGORIES. \<not> snd (CATEGORIES ! i) r) \<longrightarrow> category_of r = OTHER_CATEGORY)"
proof (intro conjI allI impI)
  fix i
  assume "i < length CATEGORIES"
    and "snd (CATEGORIES ! i) r \<and> (\<forall>j<i. \<not> snd (CATEGORIES ! j) r)"
  then have "List.find (\<lambda>cat. snd cat r) CATEGORIES = Some (CATEGORIES ! i)"
    unfolding find_Some_iff by blast
  then show "category_of r = fst (CATEGORIES ! i)" by (simp add: category_of_def)
next
  assume "\<forall>i<length CATEGORIES. \<not> snd (CATEGORIES ! i) r"
  then have "List.find (\<lambda>cat. snd cat r) CATEGORIES = None"
    unfolding find_None_iff by (metis in_set_conv_nth)
  then show "category_of r = OTHER_CATEGORY" by (simp add: category_of_def)
qed

lemma in_categorize_prs:
  "(n, cfg, repos) \<in> set (categorize_prs prs) \<longleftrightarrow>
     cfg \<in> set (map fst CATEGORIES @ [OTHER_CATEGORY]) \<and> n = name cfg \<and>
     repos = section_of prs cfg \<and> (\<exists>p\<in>set prs. category_of (repo p) = cfg)"
proof -
  have "(n, cfg, repos) \<in> set (categorize_prs prs) \<longleftrightarrow>
     cfg \<in> set (map fst CATEGORIES @ [OTHER_CATEGORY]) \<and> n = name cfg \<and>
     repos = section_of prs cfg \<and> (\<exists>p\<in>set prs. name (category_of (repo p)) = name cfg)"
    unfolding categorize_prs_eq by (auto split: if_splits)
  then show ?thesis using category_name_eq by blast
qed

lemma fst_set_section_of:
  assumes "cfg \<in> set (map fst CATEGORIES @ [OTHER_CATEGORY])"
  shows "fst ` set (section_of prs cfg) = {r \<in> repo ` set prs. category_of r = cfg}"
proof -
  have "fst ` set (section_of prs cfg) =
      {r \<in> fst ` set (groups prs). name (category_of r) = name cfg}"
    unfolding section_of_def sorted_desc_props(1) by (auto simp: image_iff) force
  then show ?thesis
    unfolding fst_set_groups category_name_eq [OF assms] .
qed

lemma map_fst_categorize_prs:
  "map fst (categorize_prs prs) =
     filter (\<lambda>n. \<exists>p\<in>set prs. name (category_of (repo p)) = n)
       (map (name \<circ> fst) CATEGORIES @ [''Other''])"
  unfolding categorize_prs_eq by (simp add: CATEGORIES_def OTHER_CATEGORY_def)

text \<open>
  C3: a repository's category is that of the first rule of \<open>CATEGORIES\<close> whose predicate
  accepts its name, and \<open>Other\<close> when no rule does. The categories of the result are the
  rule names in declaration order followed by \<open>Other\<close>, without those that no input
  repository belongs to; each category of the result carries its own configuration, is
  not empty and holds exactly the input repositories of that category; and every input
  repository is in the category it is assigned.
\<close>

theorem categorize_prs_first_match:
  "(\<forall>i<length CATEGORIES. snd (CATEGORIES ! i) r \<and> (\<forall>j<i. \<not> snd (CATEGORIES ! j) r) \<longrightarrow>
       category_of r = fst (CATEGORIES ! i)) \<and>
   ((\<forall>i<length CATEGORIES. \<not> snd (CATEGORIES ! i) r) \<longrightarrow> category_of r = OTHER_CATEGORY) \<and>
   map fst (categorize_prs prs) =
     filter (\<lambda>n. \<exists>p\<in>set prs. name (category_of (repo p)) = n)
       (map (name \<circ> fst) CATEGORIES @ [''Other'']) \<and>
   (\<forall>(n, cfg, repos) \<in> set (categorize_prs prs).
      cfg \<in> set (map fst CATEGORIES @ [OTHER_CATEGORY]) \<and> name cfg = n \<and> repos \<noteq> [] \<and>
      fst ` set repos = {r \<in> repo ` set prs. category_of r = cfg}) \<and>
   (\<forall>p\<in>set prs. \<exists>repos.
      (name (category_of (repo p)), category_of (repo p), repos) \<in> set (categorize_prs prs) \<and>
      repo p \<in> fst ` set repos)"
proof (intro conjI)
  show "\<forall>i<length CATEGORIES. snd (CATEGORIES ! i) r \<and> (\<forall>j<i. \<not> snd (CATEGORIES ! j) r) \<longrightarrow>
       category_of r = fst (CATEGORIES ! i)"
    using category_of_first_match by blast
  show "(\<forall>i<length CATEGORIES. \<not> snd (CATEGORIES ! i) r) \<longrightarrow> category_of r = OTHER_CATEGORY"
    using category_of_first_match by blast
  show "map fst (categorize_prs prs) =
     filter (\<lambda>n. \<exists>p\<in>set prs. name (category_of (repo p)) = n)
       (map (name \<circ> fst) CATEGORIES @ [''Other''])"
    by (rule map_fst_categorize_prs)
  show "\<forall>(n, cfg, repos) \<in> set (categorize_prs prs).
      cfg \<in> set (map fst CATEGORIES @ [OTHER_CATEGORY]) \<and> name cfg = n \<and> repos \<noteq> [] \<and>
      fst ` set repos = {r \<in> repo ` set prs. category_of r = cfg}"
  proof (clarify, intro conjI)
    fix n cfg repos
    assume "(n, cfg, repos) \<in> set (categorize_prs prs)"
    then have c: "cfg \<in> set (map fst CATEGORIES @ [OTHER_CATEGORY])" and n: "n = name cfg"
      and r: "repos = section_of prs cfg" and e: "\<exists>p\<in>set prs. category_of (repo p) = cfg"
      unfolding in_categorize_prs by blast+
    show "cfg \<in> set (map fst CATEGORIES @ [OTHER_CATEGORY])" by (rule c)
    show "name cfg = n" using n by simp
    show f: "fst ` set repos = {r \<in> repo ` set prs. category_of r = cfg}"
      unfolding r by (rule fst_set_section_of [OF c])
    from e have "{r \<in> repo ` set prs. category_of r = cfg} \<noteq> {}" by blast
    with f show "repos \<noteq> []" by auto
  qed
  show "\<forall>p\<in>set prs. \<exists>repos.
      (name (category_of (repo p)), category_of (repo p), repos) \<in> set (categorize_prs prs) \<and>
      repo p \<in> fst ` set repos"
  proof
    fix p
    assume p: "p \<in> set prs"
    let ?c = "category_of (repo p)"
    have c: "?c \<in> set (map fst CATEGORIES @ [OTHER_CATEGORY])" by (rule category_of_configs)
    have "(name ?c, ?c, section_of prs ?c) \<in> set (categorize_prs prs)"
      unfolding in_categorize_prs using c p by blast
    moreover have "repo p \<in> fst ` set (section_of prs ?c)"
      unfolding fst_set_section_of [OF c] using p by blast
    ultimately show "\<exists>repos. (name ?c, ?c, repos) \<in> set (categorize_prs prs) \<and>
      repo p \<in> fst ` set repos" by blast
  qed
qed

theorem categorize_prs_first_match_witness:
  "category_of ''x/odin-vertx'' = fst (CATEGORIES ! 0) \<and>
   map fst (categorize_prs
     [\<lparr>repo = ''a/b'', pr_number = 1, title = ''t1'', url = ''u1''\<rparr>,
      \<lparr>repo = ''eclipse-vertx/vert.x'', pr_number = 2, title = ''t2'', url = ''u2''\<rparr>]) =
     [''Vert.x'', ''Other'']"
proof -
  let ?prs = "[\<lparr>repo = ''a/b'', pr_number = 1, title = ''t1'', url = ''u1''\<rparr>,
      \<lparr>repo = ''eclipse-vertx/vert.x'', pr_number = 2, title = ''t2'', url = ''u2''\<rparr>]"
  note T = categorize_prs_first_match [of "''x/odin-vertx''" ?prs]
  have m: "snd (CATEGORIES ! 0) ''x/odin-vertx''" by code_simp
  have l: "0 < length CATEGORIES" by (simp add: CATEGORIES_def)
  from T have "\<forall>i<length CATEGORIES. snd (CATEGORIES ! i) ''x/odin-vertx'' \<and>
      (\<forall>j<i. \<not> snd (CATEGORIES ! j) ''x/odin-vertx'') \<longrightarrow>
       category_of ''x/odin-vertx'' = fst (CATEGORIES ! i)" by (rule conjunct1)
  with l m have a: "category_of ''x/odin-vertx'' = fst (CATEGORIES ! 0)" by blast
  have c1: "name (category_of ''a/b'') = ''Other''" by code_simp
  have c2: "name (category_of ''eclipse-vertx/vert.x'') = ''Vert.x''" by code_simp
  from T have "map fst (categorize_prs ?prs) =
     filter (\<lambda>n. \<exists>p\<in>set ?prs. name (category_of (repo p)) = n)
       (map (name \<circ> fst) CATEGORIES @ [''Other''])" by blast
  also have "\<dots> = [''Vert.x'', ''Other'']"
    by (simp add: c1 c2 CATEGORIES_def)
  finally show ?thesis using a by blast
qed

lemma section_of_entry:
  assumes "(r, ps) \<in> set (section_of prs cfg)"
  shows "ps = sorted_desc pr_number (filter (\<lambda>p. repo p = r) prs)"
  using assms unfolding section_of_def sorted_desc_props(1) groups_def by auto

lemma map_fst_filter_keyed:
  "map fst (filter Q (map g (filter P (map h rs)))) =
     map (\<lambda>r. fst (g (h r))) (filter (\<lambda>r. P (h r) \<and> Q (g (h r))) rs)"
  by (induction rs) auto

lemma section_of_stable:
  assumes "cfg \<in> set (map fst CATEGORIES @ [OTHER_CATEGORY])"
  shows "map fst (filter (\<lambda>e. length (snd e) = k) (section_of prs cfg)) =
           filter (\<lambda>r. category_of r = cfg \<and> length (filter (\<lambda>p. repo p = r) prs) = k)
             (first_seen (map repo prs))"
proof -
  let ?L = "\<lambda>x::string \<times> pr list. int (length (snd x))"
  let ?g = "\<lambda>e::string \<times> pr list. (fst e, sorted_desc pr_number (snd e))"
  let ?P = "\<lambda>e::string \<times> pr list. name (category_of (fst e)) = name cfg"
  let ?h = "\<lambda>r. (r, filter (\<lambda>p. repo p = r) prs)"
  let ?fs = "first_seen (map repo prs)"
  have "filter (\<lambda>e. length (snd e) = k) (section_of prs cfg) =
        filter (\<lambda>x. ?L x = int k) (section_of prs cfg)" by simp
  also have "\<dots> = filter (\<lambda>x. ?L x = int k) (map ?g (filter ?P (groups prs)))"
    unfolding section_of_def by (rule sorted_desc_props(5))
  finally have "map fst (filter (\<lambda>e. length (snd e) = k) (section_of prs cfg)) =
      map fst (filter (\<lambda>x. ?L x = int k) (map ?g (filter ?P (map ?h ?fs))))"
    by (simp add: groups_def)
  also have "\<dots> = map (\<lambda>r. fst (?g (?h r))) (filter (\<lambda>r. ?P (?h r) \<and> ?L (?g (?h r)) = int k) ?fs)"
    by (rule map_fst_filter_keyed)
  also have "\<dots> = filter (\<lambda>r. category_of r = cfg \<and> length (filter (\<lambda>p. repo p = r) prs) = k) ?fs"
    by (simp add: sorted_desc_props(3) category_name_eq [OF assms])
  finally show ?thesis .
qed


text \<open>
  C4: in every category of the result the repositories are in descending order of their
  number of pull requests, and those with the same number are in the order in which they
  first occur in the input; every repository holds its own pull requests in descending
  order of number, those of equal number in input order. Pull requests 10, 3 and 7 of one
  repository come out as 10, 7, 3.
\<close>

theorem categorize_prs_ordering:
  "(\<forall>(n, cfg, repos) \<in> set (categorize_prs prs).
      sorted_wrt (\<lambda>a b. length (snd b) \<le> length (snd a)) repos \<and>
      (\<forall>k. map fst (filter (\<lambda>e. length (snd e) = k) repos) =
           filter (\<lambda>r. category_of r = cfg \<and> length (filter (\<lambda>p. repo p = r) prs) = k)
             (first_seen (map repo prs))) \<and>
      (\<forall>(r, ps) \<in> set repos.
          sorted_wrt (\<lambda>a b. pr_number b \<le> pr_number a) ps \<and>
          mset ps = mset (filter (\<lambda>p. repo p = r) prs) \<and>
          (\<forall>m. filter (\<lambda>p. pr_number p = m) ps =
               filter (\<lambda>p. repo p = r \<and> pr_number p = m) prs))) \<and>
   categorize_prs
     [\<lparr>repo = ''a/b'', pr_number = 10, title = ''ten'', url = ''u10''\<rparr>,
      \<lparr>repo = ''a/b'', pr_number = 3, title = ''three'', url = ''u3''\<rparr>,
      \<lparr>repo = ''a/b'', pr_number = 7, title = ''seven'', url = ''u7''\<rparr>] =
     [(''Other'', OTHER_CATEGORY,
       [(''a/b'',
         [\<lparr>repo = ''a/b'', pr_number = 10, title = ''ten'', url = ''u10''\<rparr>,
          \<lparr>repo = ''a/b'', pr_number = 7, title = ''seven'', url = ''u7''\<rparr>,
          \<lparr>repo = ''a/b'', pr_number = 3, title = ''three'', url = ''u3''\<rparr>])])]"
proof (intro conjI)
  show "\<forall>(n, cfg, repos) \<in> set (categorize_prs prs).
      sorted_wrt (\<lambda>a b. length (snd b) \<le> length (snd a)) repos \<and>
      (\<forall>k. map fst (filter (\<lambda>e. length (snd e) = k) repos) =
           filter (\<lambda>r. category_of r = cfg \<and> length (filter (\<lambda>p. repo p = r) prs) = k)
             (first_seen (map repo prs))) \<and>
      (\<forall>(r, ps) \<in> set repos.
          sorted_wrt (\<lambda>a b. pr_number b \<le> pr_number a) ps \<and>
          mset ps = mset (filter (\<lambda>p. repo p = r) prs) \<and>
          (\<forall>m. filter (\<lambda>p. pr_number p = m) ps =
               filter (\<lambda>p. repo p = r \<and> pr_number p = m) prs))"
  proof (clarify, intro conjI allI)
    fix n cfg repos
    assume "(n, cfg, repos) \<in> set (categorize_prs prs)"
    then have c: "cfg \<in> set (map fst CATEGORIES @ [OTHER_CATEGORY])"
      and r: "repos = section_of prs cfg"
      unfolding in_categorize_prs by blast+
    have "sorted_wrt (\<lambda>a b. int (length (snd b)) \<le> int (length (snd a))) repos"
      unfolding r section_of_def by (rule sorted_desc_props(4))
    then show "sorted_wrt (\<lambda>a b. length (snd b) \<le> length (snd a)) repos" by simp
    show "map fst (filter (\<lambda>e. length (snd e) = k) repos) =
           filter (\<lambda>r. category_of r = cfg \<and> length (filter (\<lambda>p. repo p = r) prs) = k)
             (first_seen (map repo prs))" for k
      unfolding r by (rule section_of_stable [OF c])
    show "\<forall>(r, ps) \<in> set repos.
          sorted_wrt (\<lambda>a b. pr_number b \<le> pr_number a) ps \<and>
          mset ps = mset (filter (\<lambda>p. repo p = r) prs) \<and>
          (\<forall>m. filter (\<lambda>p. pr_number p = m) ps =
               filter (\<lambda>p. repo p = r \<and> pr_number p = m) prs)"
    proof (clarify, intro conjI allI)
      fix x ps
      assume "(x, ps) \<in> set repos"
      then have ps: "ps = sorted_desc pr_number (filter (\<lambda>p. repo p = x) prs)"
        unfolding r by (rule section_of_entry)
      show "sorted_wrt (\<lambda>a b. pr_number b \<le> pr_number a) ps"
        unfolding ps by (rule sorted_desc_props(4))
      show "mset ps = mset (filter (\<lambda>p. repo p = x) prs)"
        unfolding ps by (rule sorted_desc_props(2))
      show "filter (\<lambda>p. pr_number p = m) ps =
               filter (\<lambda>p. repo p = x \<and> pr_number p = m) prs" for m
        unfolding ps sorted_desc_props(5) by simp
    qed
  qed
  show "categorize_prs
     [\<lparr>repo = ''a/b'', pr_number = 10, title = ''ten'', url = ''u10''\<rparr>,
      \<lparr>repo = ''a/b'', pr_number = 3, title = ''three'', url = ''u3''\<rparr>,
      \<lparr>repo = ''a/b'', pr_number = 7, title = ''seven'', url = ''u7''\<rparr>] =
     [(''Other'', OTHER_CATEGORY,
       [(''a/b'',
         [\<lparr>repo = ''a/b'', pr_number = 10, title = ''ten'', url = ''u10''\<rparr>,
          \<lparr>repo = ''a/b'', pr_number = 7, title = ''seven'', url = ''u7''\<rparr>,
          \<lparr>repo = ''a/b'', pr_number = 3, title = ''three'', url = ''u3''\<rparr>])])]"
    by code_simp
qed

theorem categorize_prs_ordering_witness:
  "(''Other'', OTHER_CATEGORY,
     [(''c/d'', [\<lparr>repo = ''c/d'', pr_number = 9, title = ''t9'', url = ''u9''\<rparr>,
                 \<lparr>repo = ''c/d'', pr_number = 2, title = ''t2'', url = ''u2''\<rparr>]),
      (''a/b'', [\<lparr>repo = ''a/b'', pr_number = 1, title = ''t1'', url = ''u1''\<rparr>]),
      (''e/f'', [\<lparr>repo = ''e/f'', pr_number = 5, title = ''t5'', url = ''u5''\<rparr>])])
     \<in> set (categorize_prs
       [\<lparr>repo = ''a/b'', pr_number = 1, title = ''t1'', url = ''u1''\<rparr>,
        \<lparr>repo = ''c/d'', pr_number = 2, title = ''t2'', url = ''u2''\<rparr>,
        \<lparr>repo = ''e/f'', pr_number = 5, title = ''t5'', url = ''u5''\<rparr>,
        \<lparr>repo = ''c/d'', pr_number = 9, title = ''t9'', url = ''u9''\<rparr>]) \<and>
   sorted_wrt (\<lambda>a b. length (snd b) \<le> length (snd a))
     [(''c/d'', [\<lparr>repo = ''c/d'', pr_number = 9, title = ''t9'', url = ''u9''\<rparr>,
                 \<lparr>repo = ''c/d'', pr_number = 2, title = ''t2'', url = ''u2''\<rparr>]),
      (''a/b'', [\<lparr>repo = ''a/b'', pr_number = 1, title = ''t1'', url = ''u1''\<rparr>]),
      (''e/f'', [\<lparr>repo = ''e/f'', pr_number = 5, title = ''t5'', url = ''u5''\<rparr>])]"
proof -
  let ?prs = "[\<lparr>repo = ''a/b'', pr_number = 1, title = ''t1'', url = ''u1''\<rparr>,
        \<lparr>repo = ''c/d'', pr_number = 2, title = ''t2'', url = ''u2''\<rparr>,
        \<lparr>repo = ''e/f'', pr_number = 5, title = ''t5'', url = ''u5''\<rparr>,
        \<lparr>repo = ''c/d'', pr_number = 9, title = ''t9'', url = ''u9''\<rparr>]"
  let ?R = "[(''c/d'', [\<lparr>repo = ''c/d'', pr_number = 9, title = ''t9'', url = ''u9''\<rparr>,
                 \<lparr>repo = ''c/d'', pr_number = 2, title = ''t2'', url = ''u2''\<rparr>]),
      (''a/b'', [\<lparr>repo = ''a/b'', pr_number = 1, title = ''t1'', url = ''u1''\<rparr>]),
      (''e/f'', [\<lparr>repo = ''e/f'', pr_number = 5, title = ''t5'', url = ''u5''\<rparr>])]"
  have e: "categorize_prs ?prs = [(''Other'', OTHER_CATEGORY, ?R)]" by code_simp
  then have m: "(''Other'', OTHER_CATEGORY, ?R) \<in> set (categorize_prs ?prs)" by simp
  from categorize_prs_ordering [of ?prs] m
  have "sorted_wrt (\<lambda>a b. length (snd b) \<le> length (snd a)) ?R" by blast
  with m show ?thesis by blast
qed

lemma mset_filter_keys:
  "distinct rs \<Longrightarrow>
     mset (concat (map (\<lambda>r. filter (\<lambda>p. f p = r) xs) rs)) = mset (filter (\<lambda>p. f p \<in> set rs) xs)"
proof (induction rs)
  case Nil
  show ?case by simp
next
  case (Cons r rs)
  then have r: "r \<notin> set rs" and d: "distinct rs" by simp_all
  have "mset (filter (\<lambda>p. f p = r) xs) + mset (filter (\<lambda>p. f p \<in> set rs) xs) =
        mset (filter (\<lambda>p. f p \<in> set (r # rs)) xs)"
    using r by (induction xs) auto
  with Cons.IH [OF d] show ?case by simp
qed

lemma mset_concat_groups: "mset (concat (map snd (groups prs))) = mset prs"
proof -
  have "concat (map snd (groups prs)) =
        concat (map (\<lambda>r. filter (\<lambda>p. repo p = r) prs) (first_seen (map repo prs)))"
    by (simp add: groups_def comp_def)
  then have "mset (concat (map snd (groups prs))) =
        mset (filter (\<lambda>p. repo p \<in> set (first_seen (map repo prs))) prs)"
    by (simp add: mset_filter_keys)
  also have "\<dots> = mset prs"
    by (simp add: filter_id_conv[THEN iffD2])
  finally show ?thesis .
qed

lemma mset_three_way:
  assumes "\<forall>x\<in>set xs. f x = a \<or> f x = b \<or> f x = c" and "a \<noteq> b" and "a \<noteq> c" and "b \<noteq> c"
  shows "mset (filter (\<lambda>x. f x = a) xs) + mset (filter (\<lambda>x. f x = b) xs) +
         mset (filter (\<lambda>x. f x = c) xs) = mset xs"
  using assms by (induction xs) auto

lemma section_of_empty:
  assumes "\<not> (\<exists>p\<in>set prs. name (category_of (repo p)) = name c)"
  shows "section_of prs c = []"
proof -
  have "filter (\<lambda>e. name (category_of (fst e)) = name c) (groups prs) = []"
    using assms by (auto simp: filter_empty_conv groups_def)
  then show ?thesis by (simp add: section_of_def sorted_desc_def)
qed

lemma all_sections:
  "concat (map (\<lambda>(n, cfg, repos). repos) (categorize_prs prs)) =
     concat (map (section_of prs) (map fst CATEGORIES @ [OTHER_CATEGORY]))"
proof -
  have "concat (map (\<lambda>(n, cfg, repos). repos)
          (concat (map (\<lambda>c. if \<exists>p\<in>set prs. name (category_of (repo p)) = name c
                      then [(name c, c, section_of prs c)] else []) cs))) =
        concat (map (section_of prs) cs)" for cs
    by (induction cs) (auto simp: section_of_empty)
  then show ?thesis unfolding categorize_prs_eq .
qed

lemma category_name_cases:
  "name (category_of r) = ''Odin'' \<or> name (category_of r) = ''Vert.x'' \<or>
   name (category_of r) = ''Other''"
  by (simp add: category_of_cases CATEGORIES_def OTHER_CATEGORY_def)

lemma mset_all_sections:
  "mset (concat (map (section_of prs) (map fst CATEGORIES @ [OTHER_CATEGORY]))) =
     mset (map (\<lambda>e. (fst e, sorted_desc pr_number (snd e))) (groups prs))"
proof -
  let ?g = "\<lambda>e::string \<times> pr list. (fst e, sorted_desc pr_number (snd e))"
  let ?f = "\<lambda>e::string \<times> pr list. name (category_of (fst e))"
  have s: "mset (section_of prs c) = mset (map ?g (filter (\<lambda>e. ?f e = name c) (groups prs)))" for c
    by (simp add: section_of_def sorted_desc_props(2))
  have "mset (concat (map (section_of prs) (map fst CATEGORIES @ [OTHER_CATEGORY]))) =
        mset (map ?g (filter (\<lambda>e. ?f e = ''Odin'') (groups prs))) +
        mset (map ?g (filter (\<lambda>e. ?f e = ''Vert.x'') (groups prs))) +
        mset (map ?g (filter (\<lambda>e. ?f e = ''Other'') (groups prs)))"
    by (simp add: s CATEGORIES_def OTHER_CATEGORY_def)
  also have "\<dots> = image_mset ?g
       (mset (filter (\<lambda>e. ?f e = ''Odin'') (groups prs)) +
        mset (filter (\<lambda>e. ?f e = ''Vert.x'') (groups prs)) +
        mset (filter (\<lambda>e. ?f e = ''Other'') (groups prs)))"
    by simp
  also have "mset (filter (\<lambda>e. ?f e = ''Odin'') (groups prs)) +
        mset (filter (\<lambda>e. ?f e = ''Vert.x'') (groups prs)) +
        mset (filter (\<lambda>e. ?f e = ''Other'') (groups prs)) = mset (groups prs)"
    by (rule mset_three_way) (simp_all add: category_name_cases)
  finally show ?thesis by simp
qed

lemma mset_concat_cong:
  assumes "mset xs = mset ys"
  shows "mset (concat (map h xs)) = mset (concat (map h ys))"
proof -
  have "mset (concat (map h zs)) = \<Sum>\<^sub># (image_mset (\<lambda>z. mset (h z)) (mset zs))" for zs
    by (induction zs) auto
  with assms show ?thesis by simp
qed

lemma mset_all_buckets:
  "mset (concat (map (\<lambda>(n, cfg, repos). repos) (categorize_prs prs))) =
     mset (map (\<lambda>e. (fst e, sorted_desc pr_number (snd e))) (groups prs))"
  unfolding all_sections by (rule mset_all_sections)


text \<open>
  C9: the pull requests in all repository buckets of all categories are, as a multiset,
  the input records, so the bucket sizes add up to the length of the input; category
  names are distinct, no repository has two buckets, and a bucket only holds records of
  its own repository, so each record is in exactly one bucket of exactly one category.
\<close>

theorem categorize_prs_conserves:
  "mset (concat (map snd (concat (map (\<lambda>(n, cfg, repos). repos) (categorize_prs prs))))) =
     mset prs \<and>
   sum_list (map (\<lambda>e. length (snd e))
     (concat (map (\<lambda>(n, cfg, repos). repos) (categorize_prs prs)))) = length prs \<and>
   distinct (map fst (categorize_prs prs)) \<and>
   distinct (map fst (concat (map (\<lambda>(n, cfg, repos). repos) (categorize_prs prs)))) \<and>
   (\<forall>(r, ps) \<in> set (concat (map (\<lambda>(n, cfg, repos). repos) (categorize_prs prs))).
      \<forall>p\<in>set ps. repo p = r)"
proof -
  let ?all = "concat (map (\<lambda>(n, cfg, repos). repos) (categorize_prs prs))"
  let ?g = "\<lambda>e::string \<times> pr list. (fst e, sorted_desc pr_number (snd e))"
  have "mset (concat (map snd ?all)) = mset (concat (map snd (map ?g (groups prs))))"
    using mset_all_buckets by (rule mset_concat_cong)
  also have "\<dots> = mset (concat (map snd (groups prs)))"
  proof -
    have "mset (concat (map snd (map ?g G))) = mset (concat (map snd G))" for G
      by (induction G) (simp_all add: sorted_desc_props(2))
    then show ?thesis .
  qed
  also have "\<dots> = mset prs" by (rule mset_concat_groups)
  finally have m: "mset (concat (map snd ?all)) = mset prs" .
  have "sum_list (map (\<lambda>e. length (snd e)) ?all) = length (concat (map snd ?all))"
    by (simp add: length_concat comp_def)
  also have "\<dots> = size (mset (concat (map snd ?all)))" by simp
  also have "\<dots> = length prs" unfolding m by simp
  finally have s: "sum_list (map (\<lambda>e. length (snd e)) ?all) = length prs" .
  have "distinct (map (name \<circ> fst) CATEGORIES @ [''Other''])"
    by (simp add: CATEGORIES_def)
  then have d1: "distinct (map fst (categorize_prs prs))"
    unfolding map_fst_categorize_prs by (rule distinct_filter)
  have "mset (map fst ?all) = image_mset fst (mset ?all)" by simp
  also have "\<dots> = mset (map fst (map ?g (groups prs)))"
    unfolding mset_all_buckets by (simp add: multiset.map_comp)
  also have "\<dots> = mset (first_seen (map repo prs))"
    by (simp add: comp_def map_fst_groups [symmetric])
  finally have "distinct (map fst ?all) \<longleftrightarrow> distinct (first_seen (map repo prs))"
    by (rule mset_eq_imp_distinct_iff)
  then have d2: "distinct (map fst ?all)" by simp
  have b: "\<forall>(r, ps) \<in> set ?all. \<forall>p\<in>set ps. repo p = r"
  proof (clarify)
    fix r ps p
    assume "(r, ps) \<in> set ?all" and p: "p \<in> set ps"
    then obtain c where "(r, ps) \<in> set (section_of prs c)"
      unfolding all_sections by auto
    then have "ps = sorted_desc pr_number (filter (\<lambda>p. repo p = r) prs)"
      by (rule section_of_entry)
    with p show "repo p = r" by (simp add: sorted_desc_props(1))
  qed
  from m s d1 d2 b show ?thesis by blast
qed


theorem categorize_prs_conserves_witness:
  "sum_list (map (\<lambda>e. length (snd e))
     (concat (map (\<lambda>(n, cfg, repos). repos) (categorize_prs
       [\<lparr>repo = ''a/b'', pr_number = 1, title = ''t1'', url = ''u1''\<rparr>,
        \<lparr>repo = ''eclipse-vertx/vert.x'', pr_number = 2, title = ''t2'', url = ''u2''\<rparr>,
        \<lparr>repo = ''a/b'', pr_number = 3, title = ''t3'', url = ''u3''\<rparr>])))) = 3 \<and>
   distinct (map fst (categorize_prs
       [\<lparr>repo = ''a/b'', pr_number = 1, title = ''t1'', url = ''u1''\<rparr>,
        \<lparr>repo = ''eclipse-vertx/vert.x'', pr_number = 2, title = ''t2'', url = ''u2''\<rparr>,
        \<lparr>repo = ''a/b'', pr_number = 3, title = ''t3'', url = ''u3''\<rparr>]))"
  using categorize_prs_conserves
    [of "[\<lparr>repo = ''a/b'', pr_number = 1, title = ''t1'', url = ''u1''\<rparr>,
        \<lparr>repo = ''eclipse-vertx/vert.x'', pr_number = 2, title = ''t2'', url = ''u2''\<rparr>,
        \<lparr>repo = ''a/b'', pr_number = 3, title = ''t3'', url = ''u3''\<rparr>]"]
  by simp



end
